theory Spec2Isabelle
  imports Main "HOL-Library.Sublist"
begin

section \<open>Python strings\<close>

text \<open>
  A Python \<open>str\<close> is a sequence of Unicode code points, and \<open>len\<close>, \<open>isalnum\<close>, the
  regular expressions of \<open>re\<close> and \<open>strip\<close> all work on code points. A string is therefore a
  list of code points, each a natural number (Python admits \<open>0 .. 0x10FFFF\<close>; nothing below
  depends on the upper bound).
\<close>

type_synonym pystr = "nat list"

definition py :: "string \<Rightarrow> pystr" where
  "py s = map of_char s"

text \<open>
  \<open>str.isspace\<close> for one code point, which is also the class \<open>\s\<close> of a \<open>str\<close> pattern and
  the set of characters removed by \<open>str.strip()\<close>: the white-space table of the CPython
  runtime (TAB..CR, FS..US, SPACE, NEL, NBSP, and the Unicode space separators).
\<close>

definition isspace :: "nat \<Rightarrow> bool" where
  "isspace c \<longleftrightarrow>
     (9 \<le> c \<and> c \<le> 13) \<or> (28 \<le> c \<and> c \<le> 32) \<or> c = 133 \<or> c = 160 \<or>
     c = 5760 \<or> (8192 \<le> c \<and> c \<le> 8202) \<or> c = 8232 \<or> c = 8233 \<or>
     c = 8239 \<or> c = 8287 \<or> c = 12288"

text \<open>\<open>s.strip()\<close>: white space removed from both ends.\<close>

definition strip :: "pystr \<Rightarrow> pystr" where
  "strip s = rev (dropWhile isspace (rev (dropWhile isspace s)))"

text \<open>
  \<open>re.sub('[C]', repl, s)\<close> for a character class \<open>C\<close>: every character of the class is
  replaced by \<open>repl\<close>.
\<close>

definition re_sub_class :: "(nat \<Rightarrow> bool) \<Rightarrow> pystr \<Rightarrow> pystr \<Rightarrow> pystr" where
  "re_sub_class P repl s = concat (map (\<lambda>c. if P c then repl else [c]) s)"

text \<open>
  \<open>re.sub('[C]+', repl, s)\<close>: scanning from the left, every maximal run of characters of
  the class (the match of the greedy \<open>+\<close>) is replaced by one copy of \<open>repl\<close>.
\<close>

function re_sub_class_plus :: "(nat \<Rightarrow> bool) \<Rightarrow> pystr \<Rightarrow> pystr \<Rightarrow> pystr" where
  "re_sub_class_plus P repl [] = []"
| "re_sub_class_plus P repl (c # cs) =
     (if P c then repl @ re_sub_class_plus P repl (dropWhile P cs)
      else c # re_sub_class_plus P repl cs)"
  by pat_completeness auto
termination
  by (relation "measure (\<lambda>(P, repl, s). length s)")
     (auto simp: length_dropWhile_le less_Suc_eq_le)

text \<open>
  \<open>str.isalnum\<close> for one code point. The ASCII and Latin-1 rows are those of the Unicode
  character database that CPython ships (letters, decimal digits, and the numeric
  characters such as superscript digits and vulgar fractions); the rows from \<open>U+0100\<close> on
  are the parameter \<open>U\<close>.
\<close>

definition ascii_isalnum :: "nat \<Rightarrow> bool" where
  "ascii_isalnum c \<longleftrightarrow>
     (48 \<le> c \<and> c \<le> 57) \<or> (65 \<le> c \<and> c \<le> 90) \<or> (97 \<le> c \<and> c \<le> 122)"

definition latin1_isalnum :: "nat \<Rightarrow> bool" where
  "latin1_isalnum c \<longleftrightarrow>
     c = 170 \<or> c = 178 \<or> c = 179 \<or> c = 181 \<or> c = 185 \<or> c = 186 \<or>
     (188 \<le> c \<and> c \<le> 190) \<or> (192 \<le> c \<and> c \<le> 214) \<or>
     (216 \<le> c \<and> c \<le> 246) \<or> (248 \<le> c \<and> c \<le> 255)"

definition isalnum :: "(nat \<Rightarrow> bool) \<Rightarrow> nat \<Rightarrow> bool" where
  "isalnum U c =
     (if c < 128 then ascii_isalnum c else if c < 256 then latin1_isalnum c else U c)"

section \<open>Utilities of \<open>llm_runner.py\<close>\<close>

text \<open>
  \<^verbatim>\<open>def sanitize_name(name): return "".join(c if c.isalnum() or c in "-_" else "_" for c in name)\<close>
  (\<open>45\<close> is the hyphen, \<open>95\<close> the underscore).
\<close>

definition sanitize_name :: "(nat \<Rightarrow> bool) \<Rightarrow> pystr \<Rightarrow> pystr" where
  "sanitize_name U name =
     map (\<lambda>c. if isalnum U c \<or> c \<in> set [45, 95] then c else 95) name"

text \<open>
  \<open>clean_text\<close>: the three substitutions of the source, in its order. The first pattern is
  the class \<open>[\U00010000-\U0010ffff]\<close>, the second \<open>[^\x00-\x7F]+\<close>, the third \<open>\s+\<close>
  replaced by one space and followed by \<open>strip\<close>.
\<close>

definition clean_text :: "pystr \<Rightarrow> pystr" where
  "clean_text text =
     (let text = re_sub_class (\<lambda>c. 65536 \<le> c \<and> c \<le> 1114111) [] text;
          text = re_sub_class_plus (\<lambda>c. \<not> c \<le> 127) [] text;
          text = strip (re_sub_class_plus isspace [32] text)
      in text)"

section \<open>The browser as an environment\<close>

text \<open>
  The program drives a browser through Playwright. What the browser does is not in the
  repository, so it is an environment: every call into it is an action, the run keeps
  the trace of the actions made so far, and the environment says, from the trace, whether
  an action raises and what a query finds. Nothing is assumed about these answers.

  A frame is known by its identity (\<open>f is not page.main_frame\<close> compares identities). A
  locator is the first match of a query in a frame: \<open>fr.get_by_role(r).first\<close> or
  \<open>fr.locator(sel).first\<close>.
\<close>

type_synonym frame = nat

datatype query = ByRole string | ByCss string

datatype locator = First frame query

text \<open>
  The file that \<open>save_response\<close> writes: its directory below the working directory, its
  name up to the time stamp, and the lines written. The time stamp in the name and the
  \<open>Timestamp\<close> line come from the clock and are left out.
\<close>

record response_file =
  directory :: "pystr list"
  file_stem :: pystr
  provider :: pystr
  honeypot :: "pystr option"
  prompt_text :: pystr
  response_text :: pystr

datatype action =
    StartPlaywright
  | Launch bool
  | LaunchPersistent bool
  | NewContext
  | NewPage
  | Goto string
  | WaitVisible locator nat
  | Click locator
  | KeyboardType pystr nat
  | KeyboardPress string
  | WaitForTimeout int
  | InnerTextLast string
  | CloseContext
  | CloseBrowser
  | StopPlaywright
  | SaveResponse response_file

text \<open>
  \<open>Launch h\<close> is \<open>pw.chromium.launch(headless=h)\<close>, \<open>LaunchPersistent h\<close> the call
  \<open>launch_persistent_context(..., headless=h)\<close>, \<open>WaitVisible loc t\<close> the call
  \<open>loc.wait_for(state="visible", timeout=t)\<close>, \<open>InnerTextLast sel\<close> the call
  \<open>page.locator(sel).last.inner_text()\<close>, and \<open>SaveResponse f\<close> the writing of the file \<open>f\<close>.

  An event of the trace is an action that returned, an action that raised, or one of three
  prints of \<open>cmd_batch\<close>: the line \<open>[hp_idx.p_idx] Sending prompt...\<close> with the prompt, which
  precedes every call of \<open>send_prompt\<close> there, the closing \<open>Batch complete\<close> block with its
  three numbers, and the line \<open>Batch failed\<close> of the exception handler. The other prints
  are left out.
\<close>

datatype event =
    Done action
  | Raised action
  | Sending nat nat pystr
  | BatchComplete nat nat nat
  | BatchFailed

text \<open>
  A page: its main frame, the list \<open>page.frames\<close>, whether an action on the page raises,
  and the inner texts of the elements that a selector matches, in document order, the last
  three depending on the trace.
\<close>

record page =
  main_frame :: frame
  frames :: "event list \<Rightarrow> frame list"
  raises :: "event list \<Rightarrow> action \<Rightarrow> bool"
  matches :: "event list \<Rightarrow> string \<Rightarrow> pystr list"

datatype exn =
    RuntimeError string
  | PlaywrightError
  | OSError
  | UnboundLocalError
  | TypeError
  | AttributeError
  | KeyError

text \<open>
  One call into the environment, and a sequence of calls that stops at the first one that
  raises. The flag is \<open>True\<close> when nothing was raised.
\<close>

definition perform ::
    "(event list \<Rightarrow> action \<Rightarrow> bool) \<Rightarrow> action \<Rightarrow> event list \<Rightarrow> bool \<times> event list" where
  "perform R a tr = (if R tr a then (False, tr @ [Raised a]) else (True, tr @ [Done a]))"

fun perform_all ::
    "(event list \<Rightarrow> action \<Rightarrow> bool) \<Rightarrow> action list \<Rightarrow> event list \<Rightarrow> bool \<times> event list" where
  "perform_all R [] tr = (True, tr)"
| "perform_all R (a # as) tr =
     (case perform R a tr of
        (False, tr') \<Rightarrow> (False, tr')
      | (True, tr') \<Rightarrow> perform_all R as tr')"

section \<open>The element locator\<close>

text \<open>
  \<open>frames_in_read_order\<close>: the main frame, then the frames of \<open>page.frames\<close> other than the
  main frame, in their order.
\<close>

definition frames_in_read_order :: "page \<Rightarrow> event list \<Rightarrow> frame list" where
  "frames_in_read_order pg tr =
     main_frame pg # filter (\<lambda>f. f \<noteq> main_frame pg) (frames pg tr)"

text \<open>The list \<open>candidates\<close> of \<open>find_input\<close>.\<close>

definition candidates :: "string list" where
  "candidates =
     [''textarea'', ''div[contenteditable='true']'', ''input[type='text']'',
      ''[aria-label*='message' i]'', ''#prompt-textarea'']"

text \<open>
  The inner loop of \<open>find_input\<close>, over the candidates: the first candidate whose wait
  returns is the result; a wait that raises (the bare \<open>except\<close>) moves on to the next.
\<close>

fun try_candidates ::
    "page \<Rightarrow> frame \<Rightarrow> string list \<Rightarrow> event list \<Rightarrow> locator option \<times> event list" where
  "try_candidates pg fr [] tr = (None, tr)"
| "try_candidates pg fr (sel # sels) tr =
     (let loc = First fr (ByCss sel)
      in case perform (raises pg) (WaitVisible loc 1000) tr of
           (True, tr') \<Rightarrow> (Some loc, tr')
         | (False, tr') \<Rightarrow> try_candidates pg fr sels tr')"

text \<open>
  The outer loop, over the frames: in each frame the role query \<open>textbox\<close> first, with a
  timeout of 5000, then the candidates.
\<close>

fun scan_frames ::
    "page \<Rightarrow> frame list \<Rightarrow> event list \<Rightarrow> locator option \<times> event list" where
  "scan_frames pg [] tr = (None, tr)"
| "scan_frames pg (fr # frs) tr =
     (let loc = First fr (ByRole ''textbox'')
      in case perform (raises pg) (WaitVisible loc 5000) tr of
           (True, tr') \<Rightarrow> (Some loc, tr')
         | (False, tr') \<Rightarrow>
             (case try_candidates pg fr candidates tr' of
                (Some l, tr'') \<Rightarrow> (Some l, tr'')
              | (None, tr'') \<Rightarrow> scan_frames pg frs tr''))"

text \<open>
  \<open>find_input(page, input_selector)\<close>: the loops, and \<open>RuntimeError\<close> when they end without
  a result. The parameter \<open>input_selector\<close> does not occur in the body of the source
  function, and so not here either.
\<close>

definition find_input ::
    "page \<Rightarrow> string option \<Rightarrow> event list \<Rightarrow> (exn + locator) \<times> event list" where
  "find_input pg input_selector tr =
     (case scan_frames pg (frames_in_read_order pg tr) tr of
        (Some loc, tr') \<Rightarrow> (Inr loc, tr')
      | (None, tr') \<Rightarrow> (Inl (RuntimeError '' Input field not found''), tr'))"

section \<open>Sending a prompt\<close>

text \<open>
  A provider profile, the dictionary \<open>llm\<close>: \<open>name\<close> and \<open>url\<close> are read with \<open>llm[...]\<close>, the
  other keys with \<open>llm.get\<close>, so they may be absent.
\<close>

record llm =
  name :: pystr
  url :: string
  input_selector :: "string option"
  wait_time :: "int option"
  response_selector :: "string option"

text \<open>\<open>llm.get("wait_time", 10000)\<close> and \<open>llm.get("response_selector", ".markdown")\<close>.\<close>

definition wait_time_of :: "llm \<Rightarrow> int" where
  "wait_time_of l = (case wait_time l of Some w \<Rightarrow> w | None \<Rightarrow> 10000)"

definition response_selector_of :: "llm \<Rightarrow> string" where
  "response_selector_of l =
     (case response_selector l of Some s \<Rightarrow> s | None \<Rightarrow> ''.markdown'')"

text \<open>
  The calls of \<open>send_prompt\<close> between \<open>find_input\<close> and the wait for the response: the click,
  the typing of the prompt, and three presses of Enter with their pauses.
\<close>

definition submission :: "locator \<Rightarrow> pystr \<Rightarrow> action list" where
  "submission inp prompt =
     [Click inp, KeyboardType prompt 30, WaitForTimeout 300, KeyboardPress ''Enter'',
      WaitForTimeout 100, KeyboardPress ''Enter'', WaitForTimeout 100,
      KeyboardPress ''Enter'']"

text \<open>
  \<open>page.locator(sel).last.inner_text()\<close>: the text of the last element that the selector
  matches; with no matching element the call times out and raises.
\<close>

definition inner_text_last ::
    "page \<Rightarrow> string \<Rightarrow> event list \<Rightarrow> pystr option \<times> event list" where
  "inner_text_last pg sel tr =
     (if raises pg tr (InnerTextLast sel) \<or> matches pg tr sel = []
      then (None, tr @ [Raised (InnerTextLast sel)])
      else (Some (last (matches pg tr sel)), tr @ [Done (InnerTextLast sel)]))"

text \<open>
  The end of \<open>send_prompt\<close>, from the text that \<open>inner_text()\<close> returned to the value
  returned: the text is stripped, and a stripped text of more than one character is
  cleaned and returned; otherwise the result is \<open>None\<close>.
\<close>

definition read_response :: "pystr \<Rightarrow> pystr option" where
  "read_response raw =
     (let text = strip raw
      in if text \<noteq> [] \<and> length text > 1 then Some (clean_text text) else None)"

text \<open>
  \<open>send_prompt\<close>: the whole body is in a \<open>try\<close> whose handler returns \<open>None\<close>, so every
  raise ends the call with \<open>None\<close>.
\<close>

definition send_prompt ::
    "page \<Rightarrow> llm \<Rightarrow> pystr \<Rightarrow> event list \<Rightarrow> pystr option \<times> event list" where
  "send_prompt pg l prompt tr =
     (case find_input pg (input_selector l) tr of
        (Inl e, tr1) \<Rightarrow> (None, tr1)
      | (Inr inp, tr1) \<Rightarrow>
          (case perform_all (raises pg)
                  (submission inp prompt @ [WaitForTimeout (wait_time_of l)]) tr1 of
             (False, tr2) \<Rightarrow> (None, tr2)
           | (True, tr2) \<Rightarrow>
               (case inner_text_last pg (response_selector_of l) tr2 of
                  (None, tr3) \<Rightarrow> (None, tr3)
                | (Some raw, tr3) \<Rightarrow> (read_response raw, tr3))))"

section \<open>Saving a response\<close>

text \<open>
  What is outside the page: the Unicode table for \<open>isalnum\<close>, whether the files that
  \<open>cmd_test\<close> and \<open>cmd_batch\<close> look for exist, whether an action on the browser or on the
  file system raises, and the page that \<open>new_page()\<close> gives in a browser launched with
  the given \<open>headless\<close> flag.
\<close>

record env =
  unicode_alnum :: "nat \<Rightarrow> bool"
  state_path_exists :: bool
  profile_dir_exists :: bool
  sys_raises :: "event list \<Rightarrow> action \<Rightarrow> bool"
  page_of :: "bool \<Rightarrow> page"

text \<open>
  \<open>save_response\<close>: with a non-empty \<open>honeypot_name\<close> the file goes to
  \<open>responses/<sanitized honeypot name>\<close> and has a \<open>Honeypot\<close> line, otherwise it goes to
  \<open>responses\<close>; its name starts with the sanitized provider name and an underscore.
\<close>

definition response_file_of ::
    "(nat \<Rightarrow> bool) \<Rightarrow> pystr \<Rightarrow> pystr \<Rightarrow> pystr \<Rightarrow> pystr option \<Rightarrow> response_file" where
  "response_file_of U llm_name prompt response honeypot_name =
     (let truthy_name =
            (case honeypot_name of
               None \<Rightarrow> None
             | Some h \<Rightarrow> if h \<noteq> [] then Some h else None)
      in \<lparr>directory =
             (case truthy_name of
                Some h \<Rightarrow> [py ''responses'', sanitize_name U h]
              | None \<Rightarrow> [py ''responses'']),
           file_stem = sanitize_name U llm_name @ py ''_'',
           provider = llm_name,
           honeypot = truthy_name,
           prompt_text = prompt,
           response_text = response\<rparr>)"

definition save_response ::
    "env \<Rightarrow> pystr \<Rightarrow> pystr \<Rightarrow> pystr \<Rightarrow> pystr option \<Rightarrow> event list \<Rightarrow> bool \<times> event list" where
  "save_response E llm_name prompt response honeypot_name tr =
     perform (sys_raises E)
       (SaveResponse
          (response_file_of (unicode_alnum E) llm_name prompt response honeypot_name)) tr"

section \<open>\<open>cmd_test\<close>: one prompt, headless and then headful\<close>

text \<open>
  The body of either \<open>try\<close> block of \<open>cmd_test\<close>, for the given \<open>headless\<close> flag: launch, new
  context, new page, navigation, \<open>send_prompt\<close>, and \<open>save_response\<close> when there is a
  response and \<open>save\<close> is set. The result says how the block ended (a response, which is
  where the source returns \<open>True\<close>; no response; or a raise), and whether the assignment
  to \<open>context\<close> in this block was reached. \<open>if response\<close> holds for a non-empty string.
\<close>

datatype attempt_outcome = Responded | NoResponse | Failed exn

definition attempt ::
    "env \<Rightarrow> bool \<Rightarrow> llm \<Rightarrow> pystr \<Rightarrow> bool \<Rightarrow> pystr option \<Rightarrow> event list
       \<Rightarrow> attempt_outcome \<times> bool \<times> event list" where
  "attempt E headless l prompt save honeypot_name tr =
     (case perform (sys_raises E) (Launch headless) tr of
        (False, tr1) \<Rightarrow> (Failed PlaywrightError, False, tr1)
      | (True, tr1) \<Rightarrow>
     (case perform (sys_raises E) NewContext tr1 of
        (False, tr2) \<Rightarrow> (Failed PlaywrightError, False, tr2)
      | (True, tr2) \<Rightarrow>
     (case perform (sys_raises E) NewPage tr2 of
        (False, tr3) \<Rightarrow> (Failed PlaywrightError, True, tr3)
      | (True, tr3) \<Rightarrow>
     (case perform (raises (page_of E headless)) (Goto (url l)) tr3 of
        (False, tr4) \<Rightarrow> (Failed PlaywrightError, True, tr4)
      | (True, tr4) \<Rightarrow>
     (case send_prompt (page_of E headless) l prompt tr4 of
        (None, tr5) \<Rightarrow> (NoResponse, True, tr5)
      | (Some response, tr5) \<Rightarrow>
          (if response \<noteq> [] then
            (if save then
              (case save_response E (name l) prompt response honeypot_name tr5 of
                 (False, tr6) \<Rightarrow> (Failed OSError, True, tr6)
               | (True, tr6) \<Rightarrow> (Responded, True, tr6))
             else (Responded, True, tr5))
           else (NoResponse, True, tr5)))))))"

text \<open>
  \<open>cmd_test\<close>. Without the storage state it returns \<open>False\<close> at once. The headless block
  has a handler for every exception and a \<open>finally\<close> that closes \<open>context\<close> and \<open>browser\<close>;
  when the block raised before \<open>context\<close> was assigned, the \<open>finally\<close> itself raises
  \<open>UnboundLocalError\<close>, which leaves \<open>cmd_test\<close>. A raise of a \<open>finally\<close> replaces the
  \<open>return\<close> or the exception under way. The headful block has no handler: its exception
  leaves \<open>cmd_test\<close> after the \<open>finally\<close>, which also stops Playwright.
\<close>

definition cmd_test ::
    "env \<Rightarrow> llm \<Rightarrow> pystr \<Rightarrow> bool \<Rightarrow> pystr option \<Rightarrow> event list
       \<Rightarrow> (exn + bool) \<times> event list" where
  "cmd_test E l prompt save honeypot_name tr =
     (if \<not> state_path_exists E then (Inr False, tr)
      else
        (case perform (sys_raises E) StartPlaywright tr of
          (False, tr0) \<Rightarrow> (Inl PlaywrightError, tr0)
        | (True, tr0) \<Rightarrow>
        (case attempt E True l prompt save honeypot_name tr0 of
          (out1, context_bound, tr1) \<Rightarrow>
            (if \<not> context_bound then (Inl UnboundLocalError, tr1)
             else
              (case perform_all (sys_raises E) [CloseContext, CloseBrowser] tr1 of
                (False, tr2) \<Rightarrow> (Inl PlaywrightError, tr2)
              | (True, tr2) \<Rightarrow>
                  (if out1 = Responded then (Inr True, tr2)
                   else
                    (case attempt E False l prompt save honeypot_name tr2 of
                      (out2, rebound, tr3) \<Rightarrow>
                        (case perform_all (sys_raises E)
                               [CloseContext, CloseBrowser, StopPlaywright] tr3 of
                          (False, tr4) \<Rightarrow> (Inl PlaywrightError, tr4)
                        | (True, tr4) \<Rightarrow>
                            (case out2 of
                               Responded \<Rightarrow> (Inr True, tr4)
                             | NoResponse \<Rightarrow> (Inr False, tr4)
                             | Failed e \<Rightarrow> (Inl e, tr4))))))))))"

section \<open>\<open>cmd_batch\<close>: all prompts of all personas on one page\<close>

text \<open>The variables of the loops: the two counters, and the trace.\<close>

record batch_state =
  success_count :: nat
  failed_count :: nat
  trace :: "event list"

text \<open>
  The body of the inner loop, for the element \<open>(p_idx, prompt)\<close> of
  \<open>enumerate(prompts, 1)\<close>. The flag of the result is \<open>False\<close> when an exception left the
  loops: \<open>save_response\<close> is called before \<open>success_count\<close> is incremented, so its raise
  leaves both counters as they were.
\<close>

definition one_prompt ::
    "env \<Rightarrow> page \<Rightarrow> llm \<Rightarrow> int \<Rightarrow> nat \<Rightarrow> pystr \<Rightarrow> nat \<Rightarrow> nat \<times> pystr \<Rightarrow> batch_state
       \<Rightarrow> bool \<times> batch_state" where
  "one_prompt E pg l delay hp_idx hp_name len_prompts ip st =
     (case ip of (p_idx, prompt) \<Rightarrow>
      (case send_prompt pg l prompt (trace st @ [Sending hp_idx p_idx prompt]) of
        (response, tr1) \<Rightarrow>
          (case (case response of
                   Some r \<Rightarrow>
                     (if r \<noteq> [] then
                       (case save_response E (name l) prompt r (Some hp_name) tr1 of
                          (False, tr2) \<Rightarrow> (False, st\<lparr>trace := tr2\<rparr>)
                        | (True, tr2) \<Rightarrow>
                            (True, st\<lparr>success_count := success_count st + 1,
                                      trace := tr2\<rparr>))
                      else (True, st\<lparr>failed_count := failed_count st + 1, trace := tr1\<rparr>))
                 | None \<Rightarrow> (True, st\<lparr>failed_count := failed_count st + 1, trace := tr1\<rparr>)) of
             (False, st1) \<Rightarrow> (False, st1)
           | (True, st1) \<Rightarrow>
               (if p_idx < len_prompts then
                 (case perform (raises pg) (WaitForTimeout (delay * 1000)) (trace st1) of
                    (ok, tr3) \<Rightarrow> (ok, st1\<lparr>trace := tr3\<rparr>))
                else (True, st1)))))"

fun run_prompts ::
    "env \<Rightarrow> page \<Rightarrow> llm \<Rightarrow> int \<Rightarrow> nat \<Rightarrow> pystr \<Rightarrow> nat \<Rightarrow> (nat \<times> pystr) list \<Rightarrow> batch_state
       \<Rightarrow> bool \<times> batch_state" where
  "run_prompts E pg l delay hp_idx hp_name len_prompts [] st = (True, st)"
| "run_prompts E pg l delay hp_idx hp_name len_prompts (ip # rest) st =
     (case one_prompt E pg l delay hp_idx hp_name len_prompts ip st of
        (False, st') \<Rightarrow> (False, st')
      | (True, st') \<Rightarrow> run_prompts E pg l delay hp_idx hp_name len_prompts rest st')"

text \<open>
  The body of the outer loop, for the element \<open>(hp_idx, (hp_name, prompts))\<close> of
  \<open>enumerate(honeypots, 1)\<close>, and the outer loop.
\<close>

definition one_honeypot ::
    "env \<Rightarrow> page \<Rightarrow> llm \<Rightarrow> int \<Rightarrow> nat \<Rightarrow> nat \<times> pystr \<times> pystr list \<Rightarrow> batch_state
       \<Rightarrow> bool \<times> batch_state" where
  "one_honeypot E pg l delay len_honeypots ih st =
     (case ih of (hp_idx, hp_name, prompts) \<Rightarrow>
      (case run_prompts E pg l delay hp_idx hp_name (length prompts)
              (List.enumerate 1 prompts) st of
         (False, st1) \<Rightarrow> (False, st1)
       | (True, st1) \<Rightarrow>
           (if hp_idx < len_honeypots then
             (case perform (raises pg) (WaitForTimeout (delay * 2000)) (trace st1) of
                (ok, tr2) \<Rightarrow> (ok, st1\<lparr>trace := tr2\<rparr>))
            else (True, st1))))"

fun run_honeypots ::
    "env \<Rightarrow> page \<Rightarrow> llm \<Rightarrow> int \<Rightarrow> nat \<Rightarrow> (nat \<times> pystr \<times> pystr list) list \<Rightarrow> batch_state
       \<Rightarrow> bool \<times> batch_state" where
  "run_honeypots E pg l delay len_honeypots [] st = (True, st)"
| "run_honeypots E pg l delay len_honeypots (ih # rest) st =
     (case one_honeypot E pg l delay len_honeypots ih st of
        (False, st') \<Rightarrow> (False, st')
      | (True, st') \<Rightarrow> run_honeypots E pg l delay len_honeypots rest st')"

text \<open>
  The dictionary that \<open>cmd_batch\<close> returns; the key \<open>llm\<close> is absent from the early
  returns.
\<close>

record batch_result =
  llm_key :: "pystr option"
  success :: nat
  failed :: nat
  total :: nat

text \<open>
  The \<open>try\<close> block of \<open>cmd_batch\<close> with its handler: navigation, the loops, and the closing
  print; a raise anywhere goes to the handler, which prints \<open>Batch failed\<close>.
\<close>

definition batch_body ::
    "env \<Rightarrow> page \<Rightarrow> llm \<Rightarrow> (pystr \<times> pystr list) list \<Rightarrow> int \<Rightarrow> nat \<Rightarrow> batch_state
       \<Rightarrow> batch_state" where
  "batch_body E pg l honeypots delay total_prompts st =
     (case perform (raises pg) (Goto (url l)) (trace st) of
        (False, tr1) \<Rightarrow> st\<lparr>trace := tr1 @ [BatchFailed]\<rparr>
      | (True, tr1) \<Rightarrow>
          (case run_honeypots E pg l delay (length honeypots) (List.enumerate 1 honeypots)
                  (st\<lparr>trace := tr1\<rparr>) of
             (False, st1) \<Rightarrow> st1\<lparr>trace := trace st1 @ [BatchFailed]\<rparr>
           | (True, st1) \<Rightarrow>
               st1\<lparr>trace := trace st1 @
                  [BatchComplete (success_count st1) (failed_count st1) total_prompts]\<rparr>))"

text \<open>
  \<open>cmd_batch\<close>, from the list \<open>honeypots\<close> on (the reading of the prompts file into that
  list is \<open>load_honeypots\<close> below), for persona names and prompts that are strings.
  \<open>launch_persistent\<close> and \<open>new_page\<close> are outside the \<open>try\<close>, so their raise leaves
  \<open>cmd_batch\<close>, as does a raise of the \<open>finally\<close>.
\<close>

definition cmd_batch ::
    "env \<Rightarrow> llm \<Rightarrow> (pystr \<times> pystr list) list \<Rightarrow> int \<Rightarrow> event list
       \<Rightarrow> (exn + batch_result) \<times> event list" where
  "cmd_batch E l honeypots delay tr =
     (if \<not> profile_dir_exists E
      then (Inr \<lparr>llm_key = None, success = 0, failed = 0, total = 0\<rparr>, tr)
      else
        let total_prompts = sum_list (map (\<lambda>(_, prompts). length prompts) honeypots)
        in (case perform_all (sys_raises E)
                   [StartPlaywright, LaunchPersistent True, NewPage] tr of
             (False, tr1) \<Rightarrow> (Inl PlaywrightError, tr1)
           | (True, tr1) \<Rightarrow>
               (let pg = page_of E True;
                    st = batch_body E pg l honeypots delay total_prompts
                           \<lparr>success_count = 0, failed_count = 0, trace = tr1\<rparr>
                in (case perform (raises pg) (WaitForTimeout 2000) (trace st) of
                     (False, tr2) \<Rightarrow> (Inl PlaywrightError, tr2)
                   | (True, tr2) \<Rightarrow>
                       (case perform_all (sys_raises E) [CloseContext, StopPlaywright] tr2 of
                          (False, tr3) \<Rightarrow> (Inl PlaywrightError, tr3)
                        | (True, tr3) \<Rightarrow>
                            (Inr \<lparr>llm_key = Some (name l), success = success_count st,
                                  failed = failed_count st, total = total_prompts\<rparr>,
                             tr3))))))"

section \<open>Reading the prompts file\<close>

text \<open>
  What \<open>json.load\<close> and \<open>yaml.safe_load\<close> return: a dictionary is the list of its items in
  their order, with string keys.
\<close>

datatype json =
    JNull
  | JBool bool
  | JNum int
  | JStr pystr
  | JList "json list"
  | JDict "(pystr \<times> json) list"










section \<open>Predicates used to state the properties\<close>

text \<open>
  A text is single-spaced when each of its white-space characters is the space \<open>32\<close> and
  is not followed by another white-space character; it is trimmed when it neither starts
  nor ends with white space.
\<close>

fun single_spaced :: "pystr \<Rightarrow> bool" where
  "single_spaced [] = True"
| "single_spaced [c] = (isspace c \<longrightarrow> c = 32)"
| "single_spaced (c # d # cs) =
     ((isspace c \<longrightarrow> c = 32 \<and> \<not> isspace d) \<and> single_spaced (d # cs))"

definition trimmed :: "pystr \<Rightarrow> bool" where
  "trimmed s \<longleftrightarrow> s = [] \<or> (\<not> isspace (hd s) \<and> \<not> isspace (last s))"

text \<open>
  The words of a text and their joining, as \<open>text.split()\<close> and \<open>' '.join(words)\<close> do it:
  the words are the maximal runs of characters that are not white space, and the joined
  text has one space between two words. \<open>rstrip\<close> removes white space at the end.
\<close>

function split_ws :: "pystr \<Rightarrow> pystr list" where
  "split_ws s =
     (case dropWhile isspace s of
        [] \<Rightarrow> []
      | c # cs \<Rightarrow>
          (c # takeWhile (\<lambda>x. \<not> isspace x) cs) # split_ws (dropWhile (\<lambda>x. \<not> isspace x) cs))"
  by pat_completeness auto
termination
proof (relation "measure length", goal_cases)
  case 1
  then show ?case by simp
next
  case (2 s c cs)
  have "length (dropWhile (\<lambda>x. \<not> isspace x) cs) \<le> length cs"
    by (rule length_dropWhile_le)
  moreover have "length (dropWhile isspace s) \<le> length s"
    by (rule length_dropWhile_le)
  ultimately show ?case using 2 by simp
qed

declare split_ws.simps [simp del]

fun join_sp :: "pystr list \<Rightarrow> pystr" where
  "join_sp [] = []"
| "join_sp [w] = w"
| "join_sp (w # v # ws) = w @ 32 # join_sp (v # ws)"

definition rstrip :: "pystr \<Rightarrow> pystr" where
  "rstrip s = rev (dropWhile isspace (rev s))"

text \<open>
  The search of \<open>find_input\<close> written as one list of probes: for each frame the role query
  with its timeout, then the built-in selectors with theirs; and the first probe of a list
  whose wait returns.
\<close>

definition frame_probes :: "frame \<Rightarrow> (locator \<times> nat) list" where
  "frame_probes fr =
     (First fr (ByRole ''textbox''), 5000) # map (\<lambda>sel. (First fr (ByCss sel), 1000)) candidates"

fun first_visible ::
    "page \<Rightarrow> (locator \<times> nat) list \<Rightarrow> event list \<Rightarrow> locator option \<times> event list" where
  "first_visible pg [] tr = (None, tr)"
| "first_visible pg ((loc, t) # ps) tr =
     (if raises pg tr (WaitVisible loc t)
      then first_visible pg ps (tr @ [Raised (WaitVisible loc t)])
      else (Some loc, tr @ [Done (WaitVisible loc t)]))"

section \<open>Reading a trace\<close>

text \<open>
  The events of a trace that the properties below speak about: the announcements of
  attempts, the prompts typed, the files saved, the saves that raised, the browser
  launches, and the closing prints of a batch. The ledger of a trace keeps these events, in
  their order, and drops the others (waits, clicks, key presses, reads, navigation, closing).
\<close>

fun significant :: "event \<Rightarrow> bool" where
  "significant (Done (KeyboardType p d)) = True"
| "significant (Done (SaveResponse f)) = True"
| "significant (Raised (SaveResponse f)) = True"
| "significant (Done (Launch h)) = True"
| "significant (Raised (Launch h)) = True"
| "significant (Done (LaunchPersistent h)) = True"
| "significant (Raised (LaunchPersistent h)) = True"
| "significant (Done a) = False"
| "significant (Raised a) = False"
| "significant (Sending i j p) = True"
| "significant (BatchComplete s f t) = True"
| "significant BatchFailed = True"

definition ledger :: "event list \<Rightarrow> event list" where
  "ledger tr = filter significant tr"

text \<open>
  What one event contributes: the attempt it announces, the prompt it types, the file it
  saves, the file whose saving raised, the launch of a browser with \<open>headless=False\<close>, the
  numbers of a \<open>Batch complete\<close> print. The lists below collect these over a trace.
\<close>

fun attempt_of :: "event \<Rightarrow> (nat \<times> nat \<times> pystr) list" where
  "attempt_of (Sending i j p) = [(i, j, p)]"
| "attempt_of e = []"

fun typed_by :: "event \<Rightarrow> pystr list" where
  "typed_by (Done (KeyboardType p d)) = [p]"
| "typed_by e = []"

fun saved_by :: "event \<Rightarrow> response_file list" where
  "saved_by (Done (SaveResponse f)) = [f]"
| "saved_by e = []"

fun save_raised_by :: "event \<Rightarrow> response_file list" where
  "save_raised_by (Raised (SaveResponse f)) = [f]"
| "save_raised_by e = []"

fun headful_launch_by :: "event \<Rightarrow> event list" where
  "headful_launch_by (Done (Launch h)) = (if h then [] else [Done (Launch h)])"
| "headful_launch_by (Raised (Launch h)) = (if h then [] else [Raised (Launch h)])"
| "headful_launch_by (Done (LaunchPersistent h)) = (if h then [] else [Done (LaunchPersistent h)])"
| "headful_launch_by (Raised (LaunchPersistent h)) = (if h then [] else [Raised (LaunchPersistent h)])"
| "headful_launch_by e = []"

fun complete_by :: "event \<Rightarrow> (nat \<times> nat \<times> nat) list" where
  "complete_by (BatchComplete s f t) = [(s, f, t)]"
| "complete_by e = []"

definition attempts_of :: "event list \<Rightarrow> (nat \<times> nat \<times> pystr) list" where
  "attempts_of tr = concat (map attempt_of tr)"

definition typed_of :: "event list \<Rightarrow> pystr list" where
  "typed_of tr = concat (map typed_by tr)"

definition saved_of :: "event list \<Rightarrow> response_file list" where
  "saved_of tr = concat (map saved_by tr)"

definition save_raised_of :: "event list \<Rightarrow> response_file list" where
  "save_raised_of tr = concat (map save_raised_by tr)"

definition headful_launches :: "event list \<Rightarrow> event list" where
  "headful_launches tr = concat (map headful_launch_by tr)"

definition completes_of :: "event list \<Rightarrow> (nat \<times> nat \<times> nat) list" where
  "completes_of tr = concat (map complete_by tr)"

section \<open>The plan of a batch\<close>

text \<open>
  The prompts of a batch in the order of the two loops: an item is the index of the persona,
  the index of the prompt within the persona (both counted from 1, as \<open>enumerate(..., 1)\<close>
  does), the name of the persona and the prompt.
\<close>

type_synonym item = "nat \<times> nat \<times> pystr \<times> pystr"

definition plan_prompts :: "nat \<Rightarrow> pystr \<Rightarrow> (nat \<times> pystr) list \<Rightarrow> item list" where
  "plan_prompts hp_idx hp_name ips = map (\<lambda>(p_idx, prompt). (hp_idx, p_idx, hp_name, prompt)) ips"

definition plan_honeypots :: "(nat \<times> pystr \<times> pystr list) list \<Rightarrow> item list" where
  "plan_honeypots ihs =
     concat (map (\<lambda>(hp_idx, hp_name, prompts).
                    plan_prompts hp_idx hp_name (List.enumerate 1 prompts)) ihs)"

definition plan :: "(pystr \<times> pystr list) list \<Rightarrow> item list" where
  "plan honeypots = plan_honeypots (List.enumerate 1 honeypots)"

text \<open>
  The announcement that an item gives, its prompt, and the persona label and prompt that
  its saved file carries (the label is absent for an empty persona name); the same pair
  read from a file.
\<close>

definition item_attempt :: "item \<Rightarrow> nat \<times> nat \<times> pystr" where
  "item_attempt x = (case x of (hp_idx, p_idx, hp_name, prompt) \<Rightarrow> (hp_idx, p_idx, prompt))"

definition item_prompt :: "item \<Rightarrow> pystr" where
  "item_prompt x = (case x of (hp_idx, p_idx, hp_name, prompt) \<Rightarrow> prompt)"

definition item_key :: "item \<Rightarrow> pystr option \<times> pystr" where
  "item_key x = (case x of (hp_idx, p_idx, hp_name, prompt) \<Rightarrow>
     (if hp_name \<noteq> [] then Some hp_name else None, prompt))"

definition file_key :: "response_file \<Rightarrow> pystr option \<times> pystr" where
  "file_key f = (honeypot f, prompt_text f)"

text \<open>
  The invariant of the loops. The significant events \<open>x\<close> that a loop adds to the trace
  while it works through \<open>items\<close>, with its flag \<open>ok\<close> and the increments \<open>ds\<close> and \<open>df\<close> of the
  two counters, account for the items when: the attempts announced are a prefix of the
  items, and all of them when the loop ended normally; the prompts typed and the files
  saved follow the order of the items; the saved files are as many as the successes
  counted; every attempt is a success counted, a failure counted or a save that raised;
  every saved file holds a non-empty cleaned response of this provider; and no browser
  is launched with \<open>headless=False\<close> and no \<open>Batch complete\<close> is printed inside the loops.
\<close>

definition accounts :: "pystr \<Rightarrow> item list \<Rightarrow> event list \<Rightarrow> bool \<Rightarrow> nat \<Rightarrow> nat \<Rightarrow> bool" where
  "accounts llm_name items x ok ds df \<longleftrightarrow>
     prefix (attempts_of x) (map item_attempt items) \<and>
     (ok \<longrightarrow> attempts_of x = map item_attempt items \<and> save_raised_of x = []) \<and>
     subseq (typed_of x) (map item_prompt items) \<and>
     subseq (map file_key (saved_of x)) (map item_key items) \<and>
     length (saved_of x) = ds \<and>
     ds + df + length (save_raised_of x) = length (attempts_of x) \<and>
     list_all (\<lambda>f. response_text f \<noteq> [] \<and> clean_text (response_text f) = response_text f \<and>
                    provider f = llm_name) (saved_of x) \<and>
     headful_launches x = [] \<and> completes_of x = []"

section \<open>The three shapes of a prompts file\<close>







section \<open>Concrete pages, profiles and prompt sets\<close>

text \<open>
  Inputs on which the definitions are evaluated below. On \<open>blank_page\<close> no element ever
  becomes visible. On \<open>reply_page texts\<close> everything is visible and the selector \<open>.reply\<close>
  matches elements with the given texts. On \<open>mixed_page\<close> the selector \<open>.reply\<close> matches
  one element once the prompt \<open>a\<close> has been typed, and nothing before. On \<open>hinted_page\<close> the
  only element that becomes visible is the one matching \<open>#chat-input\<close>, the input selector
  of the profile \<open>demo_llm\<close>. In \<open>demo_env pg\<close> the session files exist, no
  browser or file action raises, and every new page is \<open>pg\<close>.
\<close>

definition blank_page :: page where
  "blank_page =
     \<lparr>main_frame = 0, frames = (\<lambda>tr. [0]),
      raises = (\<lambda>tr a. case a of WaitVisible loc t \<Rightarrow> True | _ \<Rightarrow> False),
      matches = (\<lambda>tr sel. [])\<rparr>"

definition reply_page :: "pystr list \<Rightarrow> page" where
  "reply_page texts =
     \<lparr>main_frame = 0, frames = (\<lambda>tr. [0, 1]), raises = (\<lambda>tr a. False),
      matches = (\<lambda>tr sel. if sel = ''.reply'' then texts else [])\<rparr>"

definition mixed_page :: page where
  "mixed_page =
     \<lparr>main_frame = 0, frames = (\<lambda>tr. [0, 1]), raises = (\<lambda>tr a. False),
      matches = (\<lambda>tr sel.
         if sel = ''.reply'' \<and> Done (KeyboardType (py ''a'') 30) \<in> set tr
         then [py ''ok  then''] else [])\<rparr>"

definition hinted_page :: page where
  "hinted_page =
     \<lparr>main_frame = 0, frames = (\<lambda>tr. [0]),
      raises = (\<lambda>tr a. case a of
                  WaitVisible (First fr q) t \<Rightarrow> q \<noteq> ByCss ''#chat-input''
                | _ \<Rightarrow> False),
      matches = (\<lambda>tr sel. [])\<rparr>"

definition demo_llm :: llm where
  "demo_llm =
     \<lparr>name = py ''demo'', url = ''https://chat.example'', input_selector = Some ''#chat-input'',
      wait_time = Some 2500, response_selector = Some ''.reply''\<rparr>"

definition demo_env :: "page \<Rightarrow> env" where
  "demo_env pg =
     \<lparr>unicode_alnum = (\<lambda>c. False), state_path_exists = True, profile_dir_exists = True,
      sys_raises = (\<lambda>tr a. False), page_of = (\<lambda>headless. pg)\<rparr>"

definition demo_honeypots :: "(pystr \<times> pystr list) list" where
  "demo_honeypots = [(py ''ada'', [py ''who'']), (py ''bob'', [py ''a'', py ''b''])]"

section \<open>Properties of the text utilities\<close>

subsection \<open>Substitution and stripping\<close>

lemma re_sub_class_empty: "re_sub_class P [] s = filter (\<lambda>c. \<not> P c) s"
  by (induction s) (simp_all add: re_sub_class_def)

lemma filter_not_dropWhile:
  "filter (\<lambda>c. \<not> P c) (dropWhile P cs) = filter (\<lambda>c. \<not> P c) cs"
  by (induction cs) simp_all

lemma re_sub_class_plus_filter:
  "list_all P repl \<Longrightarrow>
   filter (\<lambda>c. \<not> P c) (re_sub_class_plus P repl s) = filter (\<lambda>c. \<not> P c) s"
proof (induction P repl s rule: re_sub_class_plus.induct)
  case (1 P repl)
  then show ?case by simp
next
  case (2 P repl c cs)
  have r: "filter (\<lambda>c. \<not> P c) repl = []"
    using "2.prems" by (induction repl) simp_all
  show ?case
  proof (cases "P c")
    case True
    with 2 r show ?thesis by (simp add: filter_not_dropWhile)
  next
    case False
    with 2 show ?thesis by simp
  qed
qed

lemma re_sub_class_plus_empty: "re_sub_class_plus P [] s = filter (\<lambda>c. \<not> P c) s"
proof (induction P "[] :: nat list" s rule: re_sub_class_plus.induct)
  case (1 P)
  then show ?case by simp
next
  case (2 P c cs)
  then show ?case by (simp add: filter_not_dropWhile)
qed

lemma re_sub_class_plus_id:
  "list_all (\<lambda>c. \<not> P c) s \<Longrightarrow> re_sub_class_plus P repl s = s"
  by (induction s) simp_all

lemma set_re_sub_class_plus: "set (re_sub_class_plus P repl s) \<subseteq> set s \<union> set repl"
proof (induction P repl s rule: re_sub_class_plus.induct)
  case (1 P repl)
  then show ?case by simp
next
  case (2 P repl c cs)
  show ?case
  proof (cases "P c")
    case True
    from 2(1) [OF True] have "set (re_sub_class_plus P repl (dropWhile P cs))
        \<subseteq> set (dropWhile P cs) \<union> set repl" .
    moreover have "set (dropWhile P cs) \<subseteq> set cs" by (auto dest: set_dropWhileD)
    ultimately show ?thesis using True by auto
  next
    case False
    with 2(2) show ?thesis by auto
  qed
qed

lemma strip_filter:
  "filter (\<lambda>c. \<not> isspace c) (strip s) = filter (\<lambda>c. \<not> isspace c) s"
proof -
  have "filter (\<lambda>c. \<not> isspace c) (strip s)
        = rev (filter (\<lambda>c. \<not> isspace c) (dropWhile isspace (rev (dropWhile isspace s))))"
    by (simp add: strip_def rev_filter)
  also have "\<dots> = rev (filter (\<lambda>c. \<not> isspace c) (rev (dropWhile isspace s)))"
    by (simp only: filter_not_dropWhile)
  also have "\<dots> = filter (\<lambda>c. \<not> isspace c) (dropWhile isspace s)"
    by (simp add: rev_filter)
  finally show ?thesis by (simp only: filter_not_dropWhile)
qed

lemma set_strip: "set (strip s) \<subseteq> set s"
proof -
  have "set (strip s) \<subseteq> set (dropWhile isspace s)"
    unfolding strip_def using set_dropWhileD by fastforce
  then show ?thesis using set_dropWhileD by fastforce
qed

lemma rev_dropWhile_rev_take:
  "rev (dropWhile P (rev s)) = take (length s - length (takeWhile P (rev s))) s"
  by (simp add: dropWhile_eq_drop rev_drop)

lemma trimmed_strip: "trimmed (strip s)"
proof (cases "strip s = []")
  case True
  then show ?thesis by (simp add: trimmed_def)
next
  case False
  let ?d = "dropWhile isspace (rev (dropWhile isspace s))"
  from False have ne: "?d \<noteq> []" by (simp add: strip_def)
  then have l: "\<not> isspace (hd ?d)" by (rule hd_dropWhile)
  have last_eq: "last (strip s) = hd ?d" using ne by (simp add: strip_def last_rev)
  have "hd (strip s) = last ?d" using ne by (simp add: strip_def hd_rev)
  also have "\<dots> = last (rev (dropWhile isspace s))"
    using ne by (metis last_appendR takeWhile_dropWhile_id)
  also have "\<dots> = hd (dropWhile isspace s)"
    using ne by (metis last_rev)
  finally have h: "hd (strip s) = hd (dropWhile isspace s)" .
  have "dropWhile isspace s \<noteq> []"
  proof
    assume "dropWhile isspace s = []"
    then have "?d = []" by (simp only: rev.simps dropWhile.simps)
    with ne show False by simp
  qed
  then have "\<not> isspace (hd (dropWhile isspace s))" by (rule hd_dropWhile)
  with h l last_eq False show ?thesis by (simp add: trimmed_def)
qed

lemma strip_id: "trimmed s \<Longrightarrow> strip s = s"
proof (cases s)
  case Nil
  then show ?thesis by (simp add: strip_def)
next
  case (Cons c cs)
  assume "trimmed s"
  with Cons have h: "\<not> isspace (hd s)" and l: "\<not> isspace (last s)" and ne: "s \<noteq> []"
    by (simp_all add: trimmed_def)
  from h ne have 1: "dropWhile isspace s = s" by (cases s) simp_all
  from l ne have 2: "dropWhile isspace (rev s) = rev s"
    by (cases "rev s") (simp_all add: last_rev [symmetric] hd_rev)
  show ?thesis by (simp add: strip_def 1 2)
qed

subsection \<open>Collapsing white space\<close>

lemma single_spaced_collapse: "single_spaced (re_sub_class_plus isspace [32] s)"
proof (induction "isspace" "[32::nat]" s rule: re_sub_class_plus.induct)
  case 1
  then show ?case by simp
next
  case (2 c cs)
  show ?case
  proof (cases "isspace c")
    case True
    let ?r = "dropWhile isspace cs"
    show ?thesis
    proof (cases "?r")
      case Nil
      have "re_sub_class_plus isspace [32] (c # cs)
            = 32 # re_sub_class_plus isspace [32] ?r"
        using True by simp
      also have "\<dots> = [32]" by (simp only: Nil re_sub_class_plus.simps)
      finally show ?thesis by simp
    next
      case (Cons d ds)
      then have "\<not> isspace d" using hd_dropWhile [of isspace cs] by auto
      with Cons have nd:
        "re_sub_class_plus isspace [32] ?r = d # re_sub_class_plus isspace [32] ds"
        by simp
      from 2(1) [OF True] have "single_spaced (re_sub_class_plus isspace [32] ?r)" .
      with nd True \<open>\<not> isspace d\<close> show ?thesis by simp
    qed
  next
    case False
    from 2(2) [OF False] have ih: "single_spaced (re_sub_class_plus isspace [32] cs)" .
    then show ?thesis using False
      by (cases "re_sub_class_plus isspace [32] cs") simp_all
  qed
qed

lemma single_spaced_tl: "single_spaced (c # cs) \<Longrightarrow> single_spaced cs"
  by (cases cs) simp_all

lemma single_spaced_dropWhile: "single_spaced s \<Longrightarrow> single_spaced (dropWhile P s)"
  by (induction s) (auto dest: single_spaced_tl)

lemma single_spaced_take: "single_spaced s \<Longrightarrow> single_spaced (take n s)"
proof (induction s arbitrary: n rule: single_spaced.induct)
  case 1
  then show ?case by simp
next
  case (2 c)
  then show ?case by (cases n) simp_all
next
  case (3 c d cs)
  show ?case
  proof (cases n)
    case 0
    then show ?thesis by simp
  next
    case (Suc m)
    from 3 have ih: "single_spaced (take m (d # cs))" by simp
    show ?thesis
    proof (cases m)
      case 0
      with Suc 3(2) show ?thesis by simp
    next
      case (Suc k)
      with ih 3(2) \<open>n = Suc m\<close> show ?thesis by simp
    qed
  qed
qed

lemma single_spaced_strip: "single_spaced s \<Longrightarrow> single_spaced (strip s)"
  unfolding strip_def rev_dropWhile_rev_take
  by (intro single_spaced_take single_spaced_dropWhile)

lemma collapse_id: "single_spaced s \<Longrightarrow> re_sub_class_plus isspace [32] s = s"
  by (induction s rule: single_spaced.induct) auto

subsection \<open>\<open>clean_text\<close>\<close>

lemma clean_text_ascii: "list_all (\<lambda>c. c \<le> 127) (clean_text s)"
proof -
  let ?a = "re_sub_class (\<lambda>c. 65536 \<le> c \<and> c \<le> 1114111) [] s"
  let ?b = "re_sub_class_plus (\<lambda>c. \<not> c \<le> 127) [] ?a"
  let ?c = "re_sub_class_plus isspace [32] ?b"
  have b: "set ?b \<subseteq> {c. c \<le> 127}"
    by (auto simp: re_sub_class_plus_empty)
  have "set ?c \<subseteq> set ?b \<union> {32}"
    using set_re_sub_class_plus [of isspace "[32]" ?b] by simp
  with b have "set ?c \<subseteq> {c. c \<le> 127}" by auto
  with set_strip [of ?c] have "set (strip ?c) \<subseteq> {c. c \<le> 127}" by blast
  then show ?thesis by (auto simp: clean_text_def list_all_iff)
qed

lemma clean_text_single_spaced: "single_spaced (clean_text s)"
  by (simp add: clean_text_def single_spaced_strip single_spaced_collapse)

lemma clean_text_trimmed: "trimmed (clean_text s)"
  by (simp add: clean_text_def trimmed_strip)

lemma clean_text_content:
  "filter (\<lambda>c. \<not> isspace c) (clean_text s) = filter (\<lambda>c. c \<le> 127 \<and> \<not> isspace c) s"
proof -
  have "filter (\<lambda>c. \<not> isspace c) (clean_text s)
        = filter (\<lambda>c. \<not> isspace c) (filter (\<lambda>c. c \<le> 127)
            (filter (\<lambda>c. \<not> (65536 \<le> c \<and> c \<le> 1114111)) s))"
  proof -
    have "list_all isspace [32]" by (simp add: isspace_def)
    then show ?thesis
      by (simp add: clean_text_def strip_filter re_sub_class_plus_filter
          re_sub_class_plus_empty re_sub_class_empty)
  qed
  also have "\<dots> = filter (\<lambda>c. c \<le> 127 \<and> \<not> isspace c) s"
    by (induction s) auto
  finally show ?thesis .
qed

lemma clean_text_fixpoint:
  assumes "list_all (\<lambda>c. c \<le> 127) t" and "single_spaced t" and "trimmed t"
  shows "clean_text t = t"
proof -
  have 1: "re_sub_class (\<lambda>c. 65536 \<le> c \<and> c \<le> 1114111) [] t = t"
    using assms(1) by (induction t) (simp_all add: re_sub_class_def)
  have 2: "re_sub_class_plus (\<lambda>c. \<not> c \<le> 127) [] t = t"
    using assms(1) by (intro re_sub_class_plus_id) (simp add: list_all_iff)
  show ?thesis
    by (simp add: clean_text_def 1 2 collapse_id [OF assms(2)] strip_id [OF assms(3)])
qed

subsection \<open>\<open>clean_text\<close> by words\<close>

lemma strip_rstrip: "strip s = rstrip (dropWhile isspace s)"
  by (simp add: strip_def rstrip_def)

lemma rstrip_append_keep:
  assumes "\<exists>x\<in>set b. \<not> isspace x"
  shows "rstrip (a @ b) = a @ rstrip b"
proof -
  from assms obtain x where "x \<in> set (rev b)" and "\<not> isspace x" by auto
  then have "dropWhile isspace (rev b @ rev a) = dropWhile isspace (rev b) @ rev a"
    by (rule dropWhile_append1)
  then show ?thesis by (simp add: rstrip_def)
qed

lemma rstrip_append_drop:
  assumes "\<forall>x\<in>set b. isspace x"
  shows "rstrip (a @ b) = rstrip a"
proof -
  have "dropWhile isspace (rev b @ rev a) = dropWhile isspace (rev a)"
    by (rule dropWhile_append2) (use assms in auto)
  then show ?thesis by (simp add: rstrip_def)
qed

lemma rstrip_id: "a = [] \<or> \<not> isspace (last a) \<Longrightarrow> rstrip a = a"
  by (cases a rule: rev_cases) (simp_all add: rstrip_def)

lemma collapse_word:
  "\<forall>x\<in>set w. \<not> isspace x \<Longrightarrow>
   re_sub_class_plus isspace [32] (w @ rest) = w @ re_sub_class_plus isspace [32] rest"
  by (induction w) simp_all

lemma split_ws_Nil: "split_ws [] = []"
  by (simp add: split_ws.simps)

lemma split_ws_dropWhile: "split_ws (dropWhile isspace s) = split_ws s"
  by (simp add: split_ws.simps [of s] split_ws.simps [of "dropWhile isspace s"])

lemma split_ws_word:
  "\<not> isspace c \<Longrightarrow>
   split_ws (c # cs) =
     (c # takeWhile (\<lambda>x. \<not> isspace x) cs) # split_ws (dropWhile (\<lambda>x. \<not> isspace x) cs)"
  by (simp add: split_ws.simps [of "c # cs"])

lemma rstrip_collapse_words:
  "u = [] \<or> \<not> isspace (hd u) \<Longrightarrow>
   rstrip (re_sub_class_plus isspace [32] u) = join_sp (split_ws u)"
proof (induction "length u" arbitrary: u rule: less_induct)
  case less
  show ?case
  proof (cases u)
    case Nil
    then show ?thesis by (simp add: split_ws_Nil rstrip_def)
  next
    case (Cons c cs)
    with less.prems have c: "\<not> isspace c" by simp
    let ?w = "c # takeWhile (\<lambda>x. \<not> isspace x) cs"
    let ?rest = "dropWhile (\<lambda>x. \<not> isspace x) cs"
    have u: "u = ?w @ ?rest" using Cons by simp
    have w: "\<forall>x\<in>set ?w. \<not> isspace x" using c by (auto dest: set_takeWhileD)
    have col: "re_sub_class_plus isspace [32] u = ?w @ re_sub_class_plus isspace [32] ?rest"
      using collapse_word [OF w, of ?rest] u by simp
    have sp: "split_ws u = ?w # split_ws ?rest"
      using split_ws_word [OF c, of cs] Cons by simp
    have lastw: "\<not> isspace (last ?w)" using w by (metis last_in_set list.distinct(1))
    show ?thesis
    proof (cases ?rest)
      case Nil
      have "re_sub_class_plus isspace [32] u = ?w"
        unfolding col by (simp only: Nil re_sub_class_plus.simps append_Nil2)
      moreover have "split_ws u = [?w]"
        unfolding sp by (simp only: Nil split_ws_Nil)
      moreover have "rstrip ?w = ?w"
        by (rule rstrip_id) (use lastw in blast)
      ultimately show ?thesis by (simp only: join_sp.simps)
    next
      case (Cons r rs)
      then have r: "isspace r" using hd_dropWhile [of "\<lambda>x. \<not> isspace x" cs] by auto
      let ?u' = "dropWhile isspace rs"
      have col': "re_sub_class_plus isspace [32] ?rest = 32 # re_sub_class_plus isspace [32] ?u'"
        using Cons r by simp
      have sp': "split_ws ?rest = split_ws ?u'"
        using split_ws_dropWhile [of ?rest] Cons r by simp
      have len: "length ?u' < length u"
      proof -
        have "length ?u' \<le> length rs" by (rule length_dropWhile_le)
        moreover have "length ?rest \<le> length cs" by (rule length_dropWhile_le)
        ultimately show ?thesis using Cons \<open>u = c # cs\<close> by simp
      qed
      have hd': "?u' = [] \<or> \<not> isspace (hd ?u')"
        using hd_dropWhile [of isspace rs] by auto
      note ih = less.hyps [OF len hd']
      show ?thesis
      proof (cases ?u')
        case Nil
        have "re_sub_class_plus isspace [32] u = ?w @ [32]"
          unfolding col col' by (simp only: Nil re_sub_class_plus.simps)
        moreover have "rstrip (?w @ [32]) = rstrip ?w"
          by (rule rstrip_append_drop) (simp add: isspace_def)
        moreover have "rstrip ?w = ?w"
          by (rule rstrip_id) (use lastw in blast)
        moreover have "split_ws u = [?w]"
          unfolding sp sp' by (simp only: Nil split_ws_Nil)
        ultimately show ?thesis by (simp only: join_sp.simps)
      next
        case (Cons d ds)
        with hd' have d: "\<not> isspace d" by simp
        let ?c' = "re_sub_class_plus isspace [32] ?u'"
        have c'hd: "?c' = d # re_sub_class_plus isspace [32] ds"
          using Cons d by simp
        then have ex: "\<exists>x\<in>set (32 # ?c'). \<not> isspace x" using d by auto
        have "rstrip (re_sub_class_plus isspace [32] u) = rstrip ((?w @ [32]) @ ?c')"
          by (simp add: col col')
        also have "\<dots> = (?w @ [32]) @ rstrip ?c'"
          by (rule rstrip_append_keep) (use c'hd d in auto)
        also have "\<dots> = ?w @ 32 # join_sp (split_ws ?u')"
          using ih by simp
        also have "\<dots> = join_sp (?w # split_ws ?u')"
        proof -
          obtain v vs where "split_ws ?u' = v # vs"
            using split_ws_word [OF d, of ds] Cons by simp
          then show ?thesis by simp
        qed
        finally show ?thesis by (simp add: sp sp')
      qed
    qed
  qed
qed

lemma dropWhile_collapse:
  "dropWhile isspace (re_sub_class_plus isspace [32] t) =
   re_sub_class_plus isspace [32] (dropWhile isspace t)"
proof (cases t)
  case Nil
  then show ?thesis by simp
next
  case (Cons c cs)
  show ?thesis
  proof (cases "isspace c")
    case False
    with Cons show ?thesis by simp
  next
    case True
    let ?u = "dropWhile isspace cs"
    have s32: "isspace 32" by (simp add: isspace_def)
    have "dropWhile isspace (re_sub_class_plus isspace [32] ?u) = re_sub_class_plus isspace [32] ?u"
    proof (cases ?u)
      case Nil
      show ?thesis by (simp only: Nil re_sub_class_plus.simps dropWhile.simps)
    next
      case (Cons d ds)
      then have "\<not> isspace d" using hd_dropWhile [of isspace cs] by auto
      with Cons show ?thesis by simp
    qed
    with True Cons s32 show ?thesis by simp
  qed
qed

lemma clean_text_words:
  "clean_text s = join_sp (split_ws (filter (\<lambda>c. c \<le> 127) s))"
proof -
  let ?t = "filter (\<lambda>c. c \<le> 127) s"
  have t: "re_sub_class_plus (\<lambda>c. \<not> c \<le> 127) []
             (re_sub_class (\<lambda>c. 65536 \<le> c \<and> c \<le> 1114111) [] s) = ?t"
    by (simp add: re_sub_class_plus_empty re_sub_class_empty) (induction s, auto)
  have "clean_text s = strip (re_sub_class_plus isspace [32] ?t)"
    by (simp add: clean_text_def t)
  also have "\<dots> = rstrip (re_sub_class_plus isspace [32] (dropWhile isspace ?t))"
    by (simp add: strip_rstrip dropWhile_collapse)
  also have "\<dots> = join_sp (split_ws (dropWhile isspace ?t))"
    by (rule rstrip_collapse_words) (use hd_dropWhile [of isspace ?t] in auto)
  finally show ?thesis by (simp add: split_ws_dropWhile)
qed

text \<open>
  Claim C4. \<open>clean_text\<close> removes every code point above \<open>127\<close> (emoji included) and keeps
  the other non-white-space characters in their order; its result is the words of what is
  left, joined by single spaces: every white-space run has become one space between two
  words, and there is no white space at either end. On the text \<open>Hi\<close>, space, emoji
  \<open>U+1F600\<close> (code point \<open>128512\<close>), space, \<open>there\<close>, two newlines, two spaces, \<open>now\<close>, the
  result is \<open>Hi there now\<close>.
\<close>

theorem clean_text_normalizes:
  "clean_text s = join_sp (split_ws (filter (\<lambda>c. c \<le> 127) s)) \<and>
   list_all (\<lambda>c. c \<le> 127) (clean_text s) \<and>
   filter (\<lambda>c. \<not> isspace c) (clean_text s) = filter (\<lambda>c. c \<le> 127 \<and> \<not> isspace c) s \<and>
   single_spaced (clean_text s) \<and>
   trimmed (clean_text s) \<and>
   clean_text [72, 105, 32, 128512, 32, 116, 104, 101, 114, 101, 10, 10, 32, 32, 110, 111, 119]
     = [72, 105, 32, 116, 104, 101, 114, 101, 32, 110, 111, 119]"
proof -
  have "clean_text [72, 105, 32, 128512, 32, 116, 104, 101, 114, 101, 10, 10, 32, 32, 110, 111, 119]
     = [72, 105, 32, 116, 104, 101, 114, 101, 32, 110, 111, 119]"
    by (simp add: clean_text_def re_sub_class_def strip_def isspace_def)
  then show ?thesis
    using clean_text_words clean_text_ascii clean_text_content clean_text_single_spaced
      clean_text_trimmed
    by blast
qed

theorem clean_text_normalizes_witness:
  "single_spaced [72, 105, 32, 116, 104, 101, 114, 101, 32, 110, 111, 119] \<and>
   trimmed [72, 105, 32, 116, 104, 101, 114, 101, 32, 110, 111, 119] \<and>
   isspace 32 \<and> 32 \<in> set [72, 105, 32, 116, 104, 101, 114, 101, 32, 110, 111, 119 :: nat]"
proof -
  let ?ex = "[72, 105, 32, 128512, 32, 116, 104, 101, 114, 101, 10, 10, 32, 32, 110, 111, 119]"
  from clean_text_normalizes [of ?ex]
  have e: "clean_text ?ex = [72, 105, 32, 116, 104, 101, 114, 101, 32, 110, 111, 119]"
    and s: "single_spaced (clean_text ?ex)" and t: "trimmed (clean_text ?ex)"
    by blast+
  from s t show ?thesis
    unfolding e by (simp add: isspace_def)
qed

text \<open>
  Claim C8. Normalization is idempotent: cleaning a cleaned text changes nothing.
\<close>

theorem clean_text_idempotent: "clean_text (clean_text s) = clean_text s"
  by (rule clean_text_fixpoint [OF clean_text_ascii clean_text_single_spaced clean_text_trimmed])

subsection \<open>\<open>sanitize_name\<close>\<close>




subsection \<open>The empty-response test\<close>

text \<open>
  Claim C5, as the code has it. The test for an empty response is made on the stripped
  text before it is cleaned: the result is \<open>None\<close> exactly when the stripped text has at
  most one character, and otherwise it is the cleaned text, whatever its length.
\<close>

theorem read_response_guard:
  "read_response raw =
     (if length (strip raw) \<le> 1 then None else Some (clean_text (strip raw)))"
  by (cases "strip raw") (simp_all add: read_response_def Let_def)

text \<open>
  The claim as the specification words it fails: the text \<open>a\<close> followed by an emoji has two characters,
  so it passes the test, and its cleaned text is the single character \<open>"a"\<close>, which is
  returned as a response.
\<close>

theorem read_response_single_char_counterexample:
  "read_response [97, 128512] = Some [97] \<and> length (clean_text [97, 128512]) = 1"
  by (simp add: read_response_def clean_text_def re_sub_class_def strip_def isspace_def)

section \<open>Properties of the page interaction\<close>

subsection \<open>What a call leaves in the ledger\<close>

lemma ledger_append [simp]: "ledger (a @ b) = ledger a @ ledger b"
  by (simp add: ledger_def)

lemma ledger_Nil [simp]: "ledger [] = []"
  by (simp add: ledger_def)

lemma insignificant_quiet:
  "\<not> significant e \<Longrightarrow>
   attempt_of e = [] \<and> typed_by e = [] \<and> saved_by e = [] \<and> save_raised_by e = [] \<and>
   headful_launch_by e = [] \<and> complete_by e = []"
  by (cases e rule: significant.cases) simp_all

lemma concat_map_filter_quiet:
  "(\<And>e. \<not> Q e \<Longrightarrow> g e = []) \<Longrightarrow> concat (map g (filter Q tr)) = concat (map g tr)"
  by (induction tr) simp_all

lemma measures_ledger:
  "attempts_of (ledger tr) = attempts_of tr"
  "typed_of (ledger tr) = typed_of tr"
  "saved_of (ledger tr) = saved_of tr"
  "save_raised_of (ledger tr) = save_raised_of tr"
  "headful_launches (ledger tr) = headful_launches tr"
  "completes_of (ledger tr) = completes_of tr"
  unfolding attempts_of_def typed_of_def saved_of_def save_raised_of_def headful_launches_def
    completes_of_def ledger_def
  by (rule concat_map_filter_quiet, simp add: insignificant_quiet)+

lemma perform_cases:
  "perform R a tr = (ok, tr') \<Longrightarrow> tr' = tr @ [if ok then Done a else Raised a]"
  by (auto simp: perform_def split: if_splits)


lemma ledger_perform_quiet:
  "\<not> significant (Done a) \<Longrightarrow> \<not> significant (Raised a) \<Longrightarrow>
   ledger (snd (perform R a tr)) = ledger tr"
  by (simp add: perform_def ledger_def)

lemma try_candidates_Cons:
  "try_candidates pg fr (sel # sels) tr =
     (if raises pg tr (WaitVisible (First fr (ByCss sel)) 1000)
      then try_candidates pg fr sels (tr @ [Raised (WaitVisible (First fr (ByCss sel)) 1000)])
      else (Some (First fr (ByCss sel)), tr @ [Done (WaitVisible (First fr (ByCss sel)) 1000)]))"
  by (simp add: perform_def Let_def)

lemma scan_frames_Cons:
  "scan_frames pg (fr # frs) tr =
     (if raises pg tr (WaitVisible (First fr (ByRole ''textbox'')) 5000)
      then (case try_candidates pg fr candidates
                   (tr @ [Raised (WaitVisible (First fr (ByRole ''textbox'')) 5000)]) of
              (Some l, tr'') \<Rightarrow> (Some l, tr'')
            | (None, tr'') \<Rightarrow> scan_frames pg frs tr'')
      else (Some (First fr (ByRole ''textbox'')),
            tr @ [Done (WaitVisible (First fr (ByRole ''textbox'')) 5000)]))"
  by (simp add: perform_def Let_def)

lemma ledger_try_candidates: "ledger (snd (try_candidates pg fr sels tr)) = ledger tr"
proof (induction sels arbitrary: tr)
  case Nil
  then show ?case by simp
next
  case (Cons sel sels)
  show ?case
  proof (cases "raises pg tr (WaitVisible (First fr (ByCss sel)) 1000)")
    case True
    then show ?thesis using Cons [of "tr @ [Raised (WaitVisible (First fr (ByCss sel)) 1000)]"]
      by (simp add: try_candidates_Cons ledger_def del: try_candidates.simps)
  next
    case False
    then show ?thesis by (simp add: try_candidates_Cons ledger_def del: try_candidates.simps)
  qed
qed

lemma ledger_scan_frames: "ledger (snd (scan_frames pg frs tr)) = ledger tr"
proof (induction frs arbitrary: tr)
  case Nil
  then show ?case by simp
next
  case (Cons fr frs)
  let ?w = "WaitVisible (First fr (ByRole ''textbox'')) 5000"
  show ?case
  proof (cases "raises pg tr ?w")
    case False
    then show ?thesis by (simp add: scan_frames_Cons ledger_def del: scan_frames.simps)
  next
    case True
    let ?t = "tr @ [Raised ?w]"
    have c: "ledger (snd (try_candidates pg fr candidates ?t)) = ledger tr"
      by (simp add: ledger_try_candidates) (simp add: ledger_def)
    show ?thesis
    proof (cases "try_candidates pg fr candidates ?t")
      case (Pair r t')
      with c have t': "ledger t' = ledger tr" by simp
      show ?thesis
      proof (cases r)
        case None
        with Pair True t' Cons [of t'] show ?thesis
          by (simp add: scan_frames_Cons del: scan_frames.simps)
      next
        case (Some loc)
        with Pair True t' show ?thesis
          by (simp add: scan_frames_Cons del: scan_frames.simps)
      qed
    qed
  qed
qed

lemma ledger_find_input: "ledger (snd (find_input pg sel tr)) = ledger tr"
  using ledger_scan_frames [of pg "frames_in_read_order pg tr" tr]
  by (auto simp: find_input_def split: prod.splits option.splits)

lemma ledger_perform_all_submission:
  "perform_all R (submission inp prompt @ [WaitForTimeout w]) tr = (ok, tr') \<Longrightarrow>
   ledger tr' = ledger tr \<or> ledger tr' = ledger tr @ [Done (KeyboardType prompt 30)]"
  by (auto simp: submission_def perform_def ledger_def split: if_splits)

lemma ledger_inner_text_last: "ledger (snd (inner_text_last pg sel tr)) = ledger tr"
  by (simp add: inner_text_last_def ledger_def)

lemma ledger_send_prompt:
  "ledger (snd (send_prompt pg l prompt tr)) = ledger tr \<or>
   ledger (snd (send_prompt pg l prompt tr)) = ledger tr @ [Done (KeyboardType prompt 30)]"
proof (cases "find_input pg (input_selector l) tr")
  case (Pair r tr1)
  with ledger_find_input [of pg "input_selector l" tr] have 1: "ledger tr1 = ledger tr" by simp
  show ?thesis
  proof (cases r)
    case (Inl e)
    with Pair 1 show ?thesis by (simp add: send_prompt_def)
  next
    case (Inr inp)
    show ?thesis
    proof (cases "perform_all (raises pg)
                    (submission inp prompt @ [WaitForTimeout (wait_time_of l)]) tr1")
      case (Pair ok tr2)
      note p2 = this
      from ledger_perform_all_submission [OF this] 1
      have 2: "ledger tr2 = ledger tr \<or> ledger tr2 = ledger tr @ [Done (KeyboardType prompt 30)]"
        by simp
      show ?thesis
      proof (cases ok)
        case False
        with \<open>find_input pg (input_selector l) tr = (r, tr1)\<close> Inr p2 2 show ?thesis
          by (simp add: send_prompt_def)
      next
        case True
        have "ledger (snd (inner_text_last pg (response_selector_of l) tr2)) = ledger tr2"
          by (rule ledger_inner_text_last)
        with \<open>find_input pg (input_selector l) tr = (r, tr1)\<close> Inr p2 2 True show ?thesis
          by (auto simp: send_prompt_def split: prod.splits option.splits)
      qed
    qed
  qed
qed

subsection \<open>The trace only grows\<close>

lemma prefix_perform: "prefix tr (snd (perform R a tr))"
  by (simp add: perform_def)

lemma prefix_perform_all: "prefix tr (snd (perform_all R as tr))"
proof (induction as arbitrary: tr)
  case Nil
  then show ?case by simp
next
  case (Cons a as)
  show ?case
  proof (cases "R tr a")
    case True
    then show ?thesis by (simp add: perform_def)
  next
    case False
    with Cons [of "tr @ [Done a]"] show ?thesis
      by (auto simp: perform_def dest: append_prefixD)
  qed
qed





subsection \<open>The element locator\<close>

text \<open>
  The loops of \<open>find_input\<close> are the search for the first visible probe in the list of
  probes of the frames in read order, and \<open>find_input\<close> raises its \<open>RuntimeError\<close> exactly
  when the search finds none.
\<close>

lemma first_visible_append:
  "first_visible pg (ps @ qs) tr =
     (case first_visible pg ps tr of
        (Some l, t) \<Rightarrow> (Some l, t)
      | (None, t) \<Rightarrow> first_visible pg qs t)"
  by (induction pg ps tr rule: first_visible.induct) simp_all

lemma try_candidates_first_visible:
  "try_candidates pg fr sels tr =
     first_visible pg (map (\<lambda>sel. (First fr (ByCss sel), 1000)) sels) tr"
  by (induction sels arbitrary: tr)
     (simp_all add: try_candidates_Cons del: try_candidates.simps(2))

lemma scan_frames_first_visible:
  "scan_frames pg frs tr = first_visible pg (concat (map frame_probes frs)) tr"
proof (induction frs arbitrary: tr)
  case Nil
  then show ?case by simp
next
  case (Cons fr frs)
  show ?case
    by (simp add: scan_frames_Cons first_visible_append frame_probes_def
        try_candidates_first_visible Cons del: scan_frames.simps(2) split: prod.splits option.splits)
qed

lemma find_input_first_visible:
  "find_input pg sel tr =
     (case first_visible pg (concat (map frame_probes (frames_in_read_order pg tr))) tr of
        (Some loc, t) \<Rightarrow> (Inr loc, t)
      | (None, t) \<Rightarrow> (Inl (RuntimeError '' Input field not found''), t))"
  by (simp add: find_input_def scan_frames_first_visible)

text \<open>
  Claim C3, at an input where the code departs from it. The profile of \<open>demo_llm\<close> gives
  the input selector \<open>#chat-input\<close>, and on \<open>hinted_page\<close> the element it matches is visible.
  \<open>find_input\<close> receives the selector, tries the role query and its five built-in
  selectors in the main frame, never tries the selector of the profile, and raises.
\<close>

theorem find_input_ignores_input_selector:
  "find_input hinted_page (Some ''#chat-input'') [] =
     (Inl (RuntimeError '' Input field not found''),
      map Raised
        (WaitVisible (First 0 (ByRole ''textbox'')) 5000 #
         map (\<lambda>sel. WaitVisible (First 0 (ByCss sel)) 1000) candidates)) \<and>
   \<not> raises hinted_page [] (WaitVisible (First 0 (ByCss ''#chat-input'')) 1000)"
  by (simp add: find_input_def frames_in_read_order_def hinted_page_def candidates_def
      perform_def Let_def)

subsection \<open>The response extractor\<close>



section \<open>Properties of the batch loops\<close>

subsection \<open>Composing accounts\<close>

lemma measures_append [simp]:
  "attempts_of (a @ b) = attempts_of a @ attempts_of b"
  "typed_of (a @ b) = typed_of a @ typed_of b"
  "saved_of (a @ b) = saved_of a @ saved_of b"
  "save_raised_of (a @ b) = save_raised_of a @ save_raised_of b"
  "headful_launches (a @ b) = headful_launches a @ headful_launches b"
  "completes_of (a @ b) = completes_of a @ completes_of b"
  by (simp_all add: attempts_of_def typed_of_def saved_of_def save_raised_of_def
      headful_launches_def completes_of_def)

lemma measures_Nil [simp]:
  "attempts_of [] = []" "typed_of [] = []" "saved_of [] = []" "save_raised_of [] = []"
  "headful_launches [] = []" "completes_of [] = []"
  by (simp_all add: attempts_of_def typed_of_def saved_of_def save_raised_of_def
      headful_launches_def completes_of_def)

lemma measures_Cons [simp]:
  "attempts_of (e # b) = attempt_of e @ attempts_of b"
  "typed_of (e # b) = typed_by e @ typed_of b"
  "saved_of (e # b) = saved_by e @ saved_of b"
  "save_raised_of (e # b) = save_raised_by e @ save_raised_of b"
  "headful_launches (e # b) = headful_launch_by e @ headful_launches b"
  "completes_of (e # b) = complete_by e @ completes_of b"
  by (simp_all add: attempts_of_def typed_of_def saved_of_def save_raised_of_def
      headful_launches_def completes_of_def)

lemma accounts_Nil: "accounts n [] [] True 0 0"
  by (simp add: accounts_def)

lemma accountsD:
  assumes "accounts n items x ok ds df"
  shows "prefix (attempts_of x) (map item_attempt items)"
    and "ok \<Longrightarrow> attempts_of x = map item_attempt items"
    and "ok \<Longrightarrow> save_raised_of x = []"
    and "subseq (typed_of x) (map item_prompt items)"
    and "subseq (map file_key (saved_of x)) (map item_key items)"
    and "length (saved_of x) = ds"
    and "ds + df + length (save_raised_of x) = length (attempts_of x)"
    and "list_all (\<lambda>f. response_text f \<noteq> [] \<and> clean_text (response_text f) = response_text f \<and>
                    provider f = n) (saved_of x)"
    and "headful_launches x = []"
    and "completes_of x = []"
  using assms unfolding accounts_def by blast+

lemma accounts_append:
  assumes "accounts n xs x1 True d1 f1" and "accounts n ys x2 ok d2 f2"
  shows "accounts n (xs @ ys) (x1 @ x2) ok (d1 + d2) (f1 + f2)"
proof -
  note A = accountsD [OF assms(1)] and B = accountsD [OF assms(2)]
  have a1: "attempts_of x1 = map item_attempt xs" and r1: "save_raised_of x1 = []"
    using A(2,3) by simp_all
  have 1: "prefix (attempts_of (x1 @ x2)) (map item_attempt (xs @ ys))"
    using B(1) by (simp add: a1)
  have 2: "ok \<longrightarrow> attempts_of (x1 @ x2) = map item_attempt (xs @ ys) \<and>
             save_raised_of (x1 @ x2) = []"
    using B(2,3) by (simp add: a1 r1)
  have 3: "subseq (typed_of (x1 @ x2)) (map item_prompt (xs @ ys))"
    using A(4) B(4) by (simp add: list_emb_append_mono)
  have 4: "subseq (map file_key (saved_of (x1 @ x2))) (map item_key (xs @ ys))"
    using A(5) B(5) by (simp add: list_emb_append_mono)
  have 5: "length (saved_of (x1 @ x2)) = d1 + d2"
    using A(6) B(6) by simp
  have 6: "(d1 + d2) + (f1 + f2) + length (save_raised_of (x1 @ x2)) = length (attempts_of (x1 @ x2))"
    using A(7) B(7) by simp
  have 7: "list_all (\<lambda>f. response_text f \<noteq> [] \<and> clean_text (response_text f) = response_text f \<and>
                    provider f = n) (saved_of (x1 @ x2))"
    using A(8) B(8) by simp
  have 8: "headful_launches (x1 @ x2) = []" "completes_of (x1 @ x2) = []"
    using A(9,10) B(9,10) by simp_all
  show ?thesis
    unfolding accounts_def using 1 2 3 4 5 6 7 8 by blast
qed

lemma accounts_abort:
  assumes "accounts n xs x False d f"
  shows "accounts n (xs @ ys) x False d f"
proof -
  note A = accountsD [OF assms]
  have 1: "prefix (attempts_of x) (map item_attempt (xs @ ys))"
    using A(1) by (simp add: prefix_prefix)
  have 3: "subseq (typed_of x) (map item_prompt (xs @ ys))"
    using A(4) by (simp add: list_emb_prefix)
  have 4: "subseq (map file_key (saved_of x)) (map item_key (xs @ ys))"
    using A(5) by (simp add: list_emb_prefix)
  show ?thesis
    unfolding accounts_def using 1 3 4 A(6-10) by blast
qed

lemma accounts_weaken: "accounts n xs x True d f \<Longrightarrow> accounts n xs x False d f"
  unfolding accounts_def by blast

lemma accounts_none: "accounts n items [] False 0 0"
  by (simp add: accounts_def)

subsection \<open>One prompt, one persona, all personas\<close>

lemma read_response_normalized: "read_response raw = Some r \<Longrightarrow> clean_text r = r"
  by (auto simp: read_response_def Let_def clean_text_fixpoint clean_text_ascii
      clean_text_single_spaced clean_text_trimmed split: if_splits)

lemma send_prompt_normalized:
  "send_prompt pg l prompt tr = (Some r, tr') \<Longrightarrow> clean_text r = r"
  by (auto simp: send_prompt_def read_response_normalized
      split: prod.splits sum.splits bool.splits option.splits)

lemma delay_step:
  assumes "(if c then (case perform R (WaitForTimeout d) (trace s) of
                         (ok, t) \<Rightarrow> (ok, s\<lparr>trace := t\<rparr>))
            else (True, s)) = (ok', s')"
  shows "ledger (trace s') = ledger (trace s) \<and> success_count s' = success_count s \<and>
         failed_count s' = failed_count s"
  using assms by (auto simp: perform_def ledger_def split: if_splits)

lemma accounts_failed_attempt:
  assumes "k = [] \<or> k = [Done (KeyboardType prompt 30)]"
  shows "accounts n [(i, j, h, prompt)] (Sending i j prompt # k) ok 0 1"
  using assms by (auto simp: accounts_def item_attempt_def item_prompt_def)

lemma accounts_saved_attempt:
  assumes "k = [] \<or> k = [Done (KeyboardType prompt 30)]"
    and "r \<noteq> []" and "clean_text r = r"
  shows "accounts n [(i, j, h, prompt)]
           (Sending i j prompt # k @ [Done (SaveResponse (response_file_of U n prompt r (Some h)))])
           ok 1 0"
  using assms
  by (auto simp: accounts_def item_attempt_def item_prompt_def item_key_def file_key_def
      response_file_of_def)

lemma accounts_save_raised:
  assumes "k = [] \<or> k = [Done (KeyboardType prompt 30)]"
  shows "accounts n [(i, j, h, prompt)] (Sending i j prompt # k @ [Raised (SaveResponse f)])
           False 0 0"
  using assms by (auto simp: accounts_def item_attempt_def item_prompt_def)

lemma one_prompt_accounts:
  assumes "one_prompt E pg l delay i h len (j, prompt) st = (ok, st')"
  shows "\<exists>x ds df. ledger (trace st') = ledger (trace st) @ x \<and>
           success_count st' = success_count st + ds \<and>
           failed_count st' = failed_count st + df \<and>
           accounts (name l) [(i, j, h, prompt)] x ok ds df"
proof -
  obtain response tr1 where sp:
    "send_prompt pg l prompt (trace st @ [Sending i j prompt]) = (response, tr1)"
    by (cases "send_prompt pg l prompt (trace st @ [Sending i j prompt])")
  from ledger_send_prompt [of pg l prompt "trace st @ [Sending i j prompt]"] sp
  obtain k where k: "k = [] \<or> k = [Done (KeyboardType prompt 30)]"
    and l1: "ledger tr1 = ledger (trace st) @ Sending i j prompt # k"
    by (auto simp: ledger_def)
  let ?fail = "st\<lparr>failed_count := failed_count st + 1, trace := tr1\<rparr>"
  consider (none) "response = None \<or> response = Some []"
    | (some) r where "response = Some r" "r \<noteq> []"
    by (cases response) auto
  then show ?thesis
  proof cases
    case none
    then have "(if j < len then (case perform (raises pg) (WaitForTimeout (delay * 1000)) (trace ?fail) of
                         (ok, t) \<Rightarrow> (ok, ?fail\<lparr>trace := t\<rparr>))
            else (True, ?fail)) = (ok, st')"
      using assms sp by (auto simp: one_prompt_def)
    from delay_step [OF this] l1
    have "ledger (trace st') = ledger (trace st) @ Sending i j prompt # k"
      and "success_count st' = success_count st + 0"
      and "failed_count st' = failed_count st + 1"
      by simp_all
    with accounts_failed_attempt [OF k] show ?thesis by blast
  next
    case some
    let ?f = "response_file_of (unicode_alnum E) (name l) prompt r (Some h)"
    from some sp have norm: "clean_text r = r" by (auto dest: send_prompt_normalized)
    show ?thesis
    proof (cases "sys_raises E tr1 (SaveResponse ?f)")
      case True
      then have "ok = False" and "st' = st\<lparr>trace := tr1 @ [Raised (SaveResponse ?f)]\<rparr>"
        using assms sp some by (auto simp: one_prompt_def save_response_def perform_def)
      with l1 have "ledger (trace st') = ledger (trace st) @ Sending i j prompt # k @ [Raised (SaveResponse ?f)]"
        and "success_count st' = success_count st + 0"
        and "failed_count st' = failed_count st + 0"
        by (simp_all add: ledger_def)
      with accounts_save_raised [OF k] \<open>ok = False\<close> show ?thesis by blast
    next
      case False
      let ?s = "st\<lparr>success_count := success_count st + 1, trace := tr1 @ [Done (SaveResponse ?f)]\<rparr>"
      from False have "(if j < len then (case perform (raises pg) (WaitForTimeout (delay * 1000)) (trace ?s) of
                         (ok, t) \<Rightarrow> (ok, ?s\<lparr>trace := t\<rparr>))
            else (True, ?s)) = (ok, st')"
        using assms sp some by (auto simp: one_prompt_def save_response_def perform_def)
      from delay_step [OF this] l1
      have "ledger (trace st') = ledger (trace st) @ Sending i j prompt # k @ [Done (SaveResponse ?f)]"
        and "success_count st' = success_count st + 1"
        and "failed_count st' = failed_count st + 0"
        by (simp_all add: ledger_def)
      with accounts_saved_attempt [OF k some(2) norm] show ?thesis by blast
    qed
  qed
qed

lemma run_prompts_accounts:
  "run_prompts E pg l delay i h len ips st = (ok, st') \<Longrightarrow>
   \<exists>x ds df. ledger (trace st') = ledger (trace st) @ x \<and>
     success_count st' = success_count st + ds \<and>
     failed_count st' = failed_count st + df \<and>
     accounts (name l) (plan_prompts i h ips) x ok ds df"
proof (induction ips arbitrary: st)
  case Nil
  then show ?case using accounts_Nil by (auto simp: plan_prompts_def)
next
  case (Cons ip ips)
  obtain j prompt where ip: "ip = (j, prompt)" by (cases ip)
  obtain ok1 st1 where one: "one_prompt E pg l delay i h len (j, prompt) st = (ok1, st1)"
    by (cases "one_prompt E pg l delay i h len (j, prompt) st")
  from one_prompt_accounts [OF one] obtain x1 d1 f1 where
    1: "ledger (trace st1) = ledger (trace st) @ x1"
    "success_count st1 = success_count st + d1" "failed_count st1 = failed_count st + f1"
    and a1: "accounts (name l) [(i, j, h, prompt)] x1 ok1 d1 f1"
    by blast
  have pl: "plan_prompts i h (ip # ips) = [(i, j, h, prompt)] @ plan_prompts i h ips"
    by (simp add: plan_prompts_def ip)
  show ?case
  proof (cases ok1)
    case False
    with Cons.prems one ip have e: "ok = False" "st' = st1" by simp_all
    from a1 False have "accounts (name l) [(i, j, h, prompt)] x1 False d1 f1" by simp
    then have "accounts (name l) ([(i, j, h, prompt)] @ plan_prompts i h ips) x1 False d1 f1"
      by (rule accounts_abort)
    with 1 show ?thesis unfolding pl e by blast
  next
    case True
    with Cons.prems one ip have "run_prompts E pg l delay i h len ips st1 = (ok, st')" by simp
    from Cons.IH [OF this] obtain x2 d2 f2 where
      2: "ledger (trace st') = ledger (trace st1) @ x2"
      "success_count st' = success_count st1 + d2" "failed_count st' = failed_count st1 + f2"
      and a2: "accounts (name l) (plan_prompts i h ips) x2 ok d2 f2"
      by blast
    from a1 True have "accounts (name l) [(i, j, h, prompt)] x1 True d1 f1" by simp
    from accounts_append [OF this a2]
    have "accounts (name l) ([(i, j, h, prompt)] @ plan_prompts i h ips) (x1 @ x2) ok (d1 + d2) (f1 + f2)" .
    moreover have "ledger (trace st') = ledger (trace st) @ x1 @ x2"
      "success_count st' = success_count st + (d1 + d2)"
      "failed_count st' = failed_count st + (f1 + f2)"
      using 1 2 by simp_all
    ultimately show ?thesis unfolding pl by blast
  qed
qed

lemma one_honeypot_accounts:
  assumes "one_honeypot E pg l delay len (i, h, prompts) st = (ok, st')"
  shows "\<exists>x ds df. ledger (trace st') = ledger (trace st) @ x \<and>
     success_count st' = success_count st + ds \<and>
     failed_count st' = failed_count st + df \<and>
     accounts (name l) (plan_prompts i h (List.enumerate 1 prompts)) x ok ds df"
proof -
  obtain ok1 st1 where rp:
    "run_prompts E pg l delay i h (length prompts) (List.enumerate 1 prompts) st = (ok1, st1)"
    by (cases "run_prompts E pg l delay i h (length prompts) (List.enumerate 1 prompts) st")
  from run_prompts_accounts [OF rp] obtain x d f where
    1: "ledger (trace st1) = ledger (trace st) @ x"
    "success_count st1 = success_count st + d" "failed_count st1 = failed_count st + f"
    and a: "accounts (name l) (plan_prompts i h (List.enumerate 1 prompts)) x ok1 d f"
    by blast
  show ?thesis
  proof (cases ok1)
    case False
    with assms rp have e: "ok = False" "st' = st1" by (simp_all add: one_honeypot_def)
    from a False have "accounts (name l) (plan_prompts i h (List.enumerate 1 prompts)) x False d f"
      by simp
    with 1 show ?thesis unfolding e by blast
  next
    case True
    with assms rp have "(if i < len then (case perform (raises pg) (WaitForTimeout (delay * 2000)) (trace st1) of
                         (ok, t) \<Rightarrow> (ok, st1\<lparr>trace := t\<rparr>))
            else (True, st1)) = (ok, st')"
      by (simp add: one_honeypot_def)
    from delay_step [OF this] 1
    have "ledger (trace st') = ledger (trace st) @ x"
      "success_count st' = success_count st + d" "failed_count st' = failed_count st + f"
      by simp_all
    moreover from a True have "accounts (name l) (plan_prompts i h (List.enumerate 1 prompts)) x ok d f"
      by (cases ok) (auto intro: accounts_weaken)
    ultimately show ?thesis by blast
  qed
qed

lemma run_honeypots_accounts:
  "run_honeypots E pg l delay len ihs st = (ok, st') \<Longrightarrow>
   \<exists>x ds df. ledger (trace st') = ledger (trace st) @ x \<and>
     success_count st' = success_count st + ds \<and>
     failed_count st' = failed_count st + df \<and>
     accounts (name l) (plan_honeypots ihs) x ok ds df"
proof (induction ihs arbitrary: st)
  case Nil
  then show ?case using accounts_Nil by (auto simp: plan_honeypots_def)
next
  case (Cons ih ihs)
  obtain i h prompts where ih: "ih = (i, h, prompts)" by (cases ih)
  let ?p = "plan_prompts i h (List.enumerate 1 prompts)"
  obtain ok1 st1 where one: "one_honeypot E pg l delay len (i, h, prompts) st = (ok1, st1)"
    by (cases "one_honeypot E pg l delay len (i, h, prompts) st")
  from one_honeypot_accounts [OF one] obtain x1 d1 f1 where
    1: "ledger (trace st1) = ledger (trace st) @ x1"
    "success_count st1 = success_count st + d1" "failed_count st1 = failed_count st + f1"
    and a1: "accounts (name l) ?p x1 ok1 d1 f1"
    by blast
  have pl: "plan_honeypots (ih # ihs) = ?p @ plan_honeypots ihs"
    by (simp add: plan_honeypots_def ih)
  show ?case
  proof (cases ok1)
    case False
    with Cons.prems one ih have e: "ok = False" "st' = st1" by simp_all
    from a1 False have "accounts (name l) ?p x1 False d1 f1" by simp
    then have "accounts (name l) (?p @ plan_honeypots ihs) x1 False d1 f1"
      by (rule accounts_abort)
    with 1 show ?thesis unfolding pl e by blast
  next
    case True
    with Cons.prems one ih have "run_honeypots E pg l delay len ihs st1 = (ok, st')" by simp
    from Cons.IH [OF this] obtain x2 d2 f2 where
      2: "ledger (trace st') = ledger (trace st1) @ x2"
      "success_count st' = success_count st1 + d2" "failed_count st' = failed_count st1 + f2"
      and a2: "accounts (name l) (plan_honeypots ihs) x2 ok d2 f2"
      by blast
    from a1 True have "accounts (name l) ?p x1 True d1 f1" by simp
    from accounts_append [OF this a2]
    have "accounts (name l) (?p @ plan_honeypots ihs) (x1 @ x2) ok (d1 + d2) (f1 + f2)" .
    moreover have "ledger (trace st') = ledger (trace st) @ x1 @ x2"
      "success_count st' = success_count st + (d1 + d2)"
      "failed_count st' = failed_count st + (f1 + f2)"
      using 1 2 by simp_all
    ultimately show ?thesis unfolding pl by blast
  qed
qed

subsection \<open>The whole of \<open>cmd_batch\<close>\<close>

lemma batch_body_accounts:
  assumes "batch_body E pg l honeypots delay tot st = st'"
  shows "\<exists>x ok ds df. accounts (name l) (plan honeypots) x ok ds df \<and>
     success_count st' = success_count st + ds \<and>
     failed_count st' = failed_count st + df \<and>
     ledger (trace st') = ledger (trace st) @ x @
        [if ok then BatchComplete (success_count st') (failed_count st') tot else BatchFailed]"
proof (cases "raises pg (trace st) (Goto (url l))")
  case True
  with assms have "st' = st\<lparr>trace := trace st @ [Raised (Goto (url l)), BatchFailed]\<rparr>"
    by (simp add: batch_body_def perform_def)
  then have "success_count st' = success_count st + 0" "failed_count st' = failed_count st + 0"
    "ledger (trace st') = ledger (trace st) @ [] @ [if False then BatchComplete (success_count st') (failed_count st') tot else BatchFailed]"
    by (simp_all add: ledger_def)
  with accounts_none [of "name l" "plan honeypots"] show ?thesis by blast
next
  case False
  let ?st0 = "st\<lparr>trace := trace st @ [Done (Goto (url l))]\<rparr>"
  obtain ok st1 where rh:
    "run_honeypots E pg l delay (length honeypots) (List.enumerate 1 honeypots) ?st0 = (ok, st1)"
    by (cases "run_honeypots E pg l delay (length honeypots) (List.enumerate 1 honeypots) ?st0")
  from run_honeypots_accounts [OF rh] obtain x ds df where
    1: "ledger (trace st1) = ledger (trace ?st0) @ x"
    "success_count st1 = success_count ?st0 + ds" "failed_count st1 = failed_count ?st0 + df"
    and a: "accounts (name l) (plan honeypots) x ok ds df"
    unfolding plan_def by blast
  have st': "st' = st1\<lparr>trace := trace st1 @
      [if ok then BatchComplete (success_count st1) (failed_count st1) tot else BatchFailed]\<rparr>"
    using assms False rh by (cases ok) (simp_all add: batch_body_def perform_def)
  have "success_count st' = success_count st + ds" "failed_count st' = failed_count st + df"
    "ledger (trace st') = ledger (trace st) @ x @
        [if ok then BatchComplete (success_count st') (failed_count st') tot else BatchFailed]"
    using 1 by (simp_all add: st' ledger_def)
  with a show ?thesis by blast
qed

lemma length_plan_prompts: "length (plan_prompts i h ips) = length ips"
  by (simp add: plan_prompts_def)

lemma length_plan_honeypots:
  "length (plan_honeypots (List.enumerate k honeypots)) =
   sum_list (map (\<lambda>(_, prompts). length prompts) honeypots)"
  by (induction honeypots arbitrary: k)
     (auto simp: plan_honeypots_def length_plan_prompts)

lemma length_plan:
  "length (plan honeypots) = sum_list (map (\<lambda>(_, prompts). length prompts) honeypots)"
  by (simp add: plan_def length_plan_honeypots)

lemma item_prompt_plan_prompts:
  "map item_prompt (plan_prompts i h (List.enumerate k prompts)) = prompts"
  by (induction prompts arbitrary: k) (simp_all add: plan_prompts_def item_prompt_def)

lemma item_prompt_plan_honeypots:
  "map item_prompt (plan_honeypots (List.enumerate k honeypots)) = concat (map snd honeypots)"
  by (induction honeypots arbitrary: k)
     (auto simp: plan_honeypots_def item_prompt_plan_prompts)

lemma item_prompt_plan: "map item_prompt (plan honeypots) = concat (map snd honeypots)"
  by (simp add: plan_def item_prompt_plan_honeypots)

lemma cmd_batch_ledger:
  assumes "profile_dir_exists E" and "cmd_batch E l honeypots delay tr = (res, tr')"
  shows "(res = Inl PlaywrightError \<and>
          (ledger tr' = ledger tr \<or> ledger tr' = ledger tr @ [Raised (LaunchPersistent True)] \<or>
           ledger tr' = ledger tr @ [Done (LaunchPersistent True)])) \<or>
         (\<exists>x ok ds df. accounts (name l) (plan honeypots) x ok ds df \<and>
            ledger tr' = ledger tr @ Done (LaunchPersistent True) # x @
              [if ok then BatchComplete ds df (length (plan honeypots)) else BatchFailed] \<and>
            (res = Inl PlaywrightError \<or>
             res = Inr \<lparr>llm_key = Some (name l), success = ds, failed = df,
                        total = length (plan honeypots)\<rparr>))"
proof (cases "perform_all (sys_raises E) [StartPlaywright, LaunchPersistent True, NewPage] tr")
  case (Pair ok1 tr1)
  show ?thesis
  proof (cases ok1)
    case False
    with Pair assms have r: "res = Inl PlaywrightError" "tr' = tr1"
      by (simp_all add: cmd_batch_def Let_def)
    from Pair False have "ledger tr1 = ledger tr \<or> ledger tr1 = ledger tr @ [Raised (LaunchPersistent True)] \<or>
           ledger tr1 = ledger tr @ [Done (LaunchPersistent True)]"
      by (auto simp: perform_def ledger_def split: if_splits)
    with r show ?thesis by blast
  next
    case True
    with Pair have l1: "ledger tr1 = ledger tr @ [Done (LaunchPersistent True)]"
      by (auto simp: perform_def ledger_def split: if_splits)
    let ?tot = "sum_list (map (\<lambda>(_, prompts). length prompts) honeypots)"
    let ?st0 = "\<lparr>success_count = 0, failed_count = 0, trace = tr1\<rparr>"
    define st where "st = batch_body E (page_of E True) l honeypots delay ?tot ?st0"
    from batch_body_accounts [OF st_def [symmetric]] obtain x ok ds df where
      a: "accounts (name l) (plan honeypots) x ok ds df"
      and c: "success_count st = ds" "failed_count st = df"
      and lg: "ledger (trace st) = ledger tr1 @ x @
        [if ok then BatchComplete (success_count st) (failed_count st) ?tot else BatchFailed]"
      by auto
    obtain ok2 tr2 where w: "perform (raises (page_of E True)) (WaitForTimeout 2000) (trace st) = (ok2, tr2)"
      by (cases "perform (raises (page_of E True)) (WaitForTimeout 2000) (trace st)")
    then have l2: "ledger tr2 = ledger (trace st)"
      by (auto simp: perform_def ledger_def split: if_splits)
    obtain ok3 tr3 where cl: "perform_all (sys_raises E) [CloseContext, StopPlaywright] tr2 = (ok3, tr3)"
      by (cases "perform_all (sys_raises E) [CloseContext, StopPlaywright] tr2")
    then have l3: "ledger tr3 = ledger tr2"
      by (auto simp: perform_def ledger_def split: if_splits)
    have res: "(res = Inl PlaywrightError \<or>
             res = Inr \<lparr>llm_key = Some (name l), success = ds, failed = df,
                        total = length (plan honeypots)\<rparr>) \<and> (tr' = tr2 \<or> tr' = tr3)"
      using assms Pair True w cl c
      by (cases ok2; cases ok3) (auto simp: cmd_batch_def Let_def st_def length_plan)
    then have "ledger tr' = ledger (trace st)" using l2 l3 by auto
    with lg l1 c have "ledger tr' = ledger tr @ Done (LaunchPersistent True) # x @
              [if ok then BatchComplete ds df (length (plan honeypots)) else BatchFailed]"
      by (simp add: length_plan)
    with a res show ?thesis by blast
  qed
qed

subsection \<open>Evaluation on the concrete inputs\<close>

lemmas run_defs =
  cmd_batch_def batch_body_def one_honeypot_def one_prompt_def send_prompt_def find_input_def
  frames_in_read_order_def candidates_def perform_def Let_def save_response_def
  response_file_of_def submission_def inner_text_last_def wait_time_of_def
  response_selector_of_def cmd_test_def attempt_def

lemmas demo_defs = demo_env_def demo_llm_def blank_page_def reply_page_def

subsection \<open>Counting and persisting\<close>

text \<open>
  Claim C2, as the code has it. In a batch run that returns its summary, the files saved
  are as many as the successes counted; every attempt announced is one success counted,
  one failure counted, or one save that raised (which ends the loops with neither counter
  changed); the attempts are at most the total; when the closing \<open>Batch complete\<close> is
  printed, successes and failures add up to the total, which is the number of attempts;
  and every saved file holds a non-empty cleaned response. Nothing is saved for a failed
  attempt.
\<close>

theorem cmd_batch_counts:
  assumes "cmd_batch E l honeypots delay [] = (Inr r, tr)"
  shows "length (saved_of tr) = success r \<and>
         success r + failed r + length (save_raised_of tr) = length (attempts_of tr) \<and>
         length (attempts_of tr) \<le> total r \<and>
         (completes_of tr \<noteq> [] \<longrightarrow>
            success r + failed r = total r \<and> length (attempts_of tr) = total r) \<and>
         list_all (\<lambda>f. response_text f \<noteq> [] \<and> clean_text (response_text f) = response_text f)
           (saved_of tr)"
proof (cases "profile_dir_exists E")
  case False
  with assms have "tr = []" "r = \<lparr>llm_key = None, success = 0, failed = 0, total = 0\<rparr>"
    by (simp_all add: cmd_batch_def)
  then show ?thesis by simp
next
  case True
  from cmd_batch_ledger [OF True assms] obtain x ok ds df where
    a: "accounts (name l) (plan honeypots) x ok ds df"
    and lg: "ledger tr = Done (LaunchPersistent True) # x @
              [if ok then BatchComplete ds df (length (plan honeypots)) else BatchFailed]"
    and r: "r = \<lparr>llm_key = Some (name l), success = ds, failed = df,
                 total = length (plan honeypots)\<rparr>"
    by auto
  note A = accountsD [OF a]
  have m: "attempts_of tr = attempts_of x" "saved_of tr = saved_of x"
    "save_raised_of tr = save_raised_of x"
    "completes_of tr = (if ok then [(ds, df, length (plan honeypots))] else [])"
    using measures_ledger [of tr, symmetric] by (simp_all add: lg A(10))
  have 1: "length (attempts_of x) \<le> length (plan honeypots)"
    using prefix_length_le [OF A(1)] by simp
  have 2: "ok \<Longrightarrow> ds + df = length (plan honeypots) \<and> length (attempts_of x) = length (plan honeypots)"
    using A(2,3,7) by simp
  have 3: "list_all (\<lambda>f. response_text f \<noteq> [] \<and> clean_text (response_text f) = response_text f)
           (saved_of x)"
    using A(8) by (simp add: list_all_iff)
  show ?thesis
    using A(6,7) 1 2 3 by (simp add: m r)
qed

text \<open>
  On \<open>mixed_page\<close> the first of three prompts gets no response and the other two do: three
  attempts, two files, and the summary 2 + 1 = 3.
\<close>

theorem cmd_batch_counts_witness:
  "fst (cmd_batch (demo_env mixed_page) demo_llm demo_honeypots 5 []) =
     Inr \<lparr>llm_key = Some (py ''demo''), success = 2, failed = 1, total = 3\<rparr> \<and>
   length (saved_of (snd (cmd_batch (demo_env mixed_page) demo_llm demo_honeypots 5 []))) = 2 \<and>
   length (attempts_of (snd (cmd_batch (demo_env mixed_page) demo_llm demo_honeypots 5 []))) = 3 \<and>
   completes_of (snd (cmd_batch (demo_env mixed_page) demo_llm demo_honeypots 5 [])) = [(2, 1, 3)]"
proof -
  let ?run = "cmd_batch (demo_env mixed_page) demo_llm demo_honeypots 5 []"
  let ?r = "\<lparr>llm_key = Some (py ''demo''), success = 2, failed = 1, total = 3\<rparr>"
  have f: "fst ?run = Inr ?r"
    by (simp add: run_defs demo_env_def demo_llm_def mixed_page_def demo_honeypots_def py_def
        read_response_def clean_text_def strip_def isspace_def re_sub_class_def)
  then have c: "?run = (Inr ?r, snd ?run)"
    by (metis prod.collapse)
  have m: "completes_of (snd ?run) = [(2, 1, 3)]"
    by (simp add: run_defs demo_env_def demo_llm_def mixed_page_def demo_honeypots_def py_def
        read_response_def clean_text_def strip_def isspace_def re_sub_class_def)
  from cmd_batch_counts [OF c] f m show ?thesis by simp
qed

text \<open>
  The claim as the specification words it fails: on \<open>blank_page\<close> the one prompt of the batch
  is attempted and fails, and no record of it is saved.
\<close>

theorem cmd_batch_unrecorded_failure_counterexample:
  "attempts_of (snd (cmd_batch (demo_env blank_page) demo_llm [(py ''ada'', [py ''who''])] 5 []))
     = [(1, 1, py ''who'')] \<and>
   saved_of (snd (cmd_batch (demo_env blank_page) demo_llm [(py ''ada'', [py ''who''])] 5 [])) = []"
  by (simp add: run_defs demo_defs py_def)

subsection \<open>Order\<close>

text \<open>
  Claim C7. In a batch run the attempts announced are a prefix of the plan, which lists the
  personas in their order and within each persona the prompts in their order, and they are
  the whole plan when \<open>Batch complete\<close> is printed; the prompts typed into the page and the
  files saved follow the same order.
\<close>

theorem cmd_batch_order:
  "prefix (attempts_of (snd (cmd_batch E l honeypots delay [])))
          (map item_attempt (plan honeypots)) \<and>
   (completes_of (snd (cmd_batch E l honeypots delay [])) \<noteq> [] \<longrightarrow>
      attempts_of (snd (cmd_batch E l honeypots delay [])) = map item_attempt (plan honeypots)) \<and>
   subseq (typed_of (snd (cmd_batch E l honeypots delay []))) (concat (map snd honeypots)) \<and>
   subseq (map file_key (saved_of (snd (cmd_batch E l honeypots delay []))))
          (map item_key (plan honeypots)) \<and>
   map item_prompt (plan honeypots) = concat (map snd honeypots)"
proof (cases "profile_dir_exists E")
  case False
  then have "snd (cmd_batch E l honeypots delay []) = []"
    by (simp add: cmd_batch_def)
  then show ?thesis by (simp add: item_prompt_plan)
next
  case True
  obtain res tr where c: "cmd_batch E l honeypots delay [] = (res, tr)"
    by (cases "cmd_batch E l honeypots delay []")
  from cmd_batch_ledger [OF True c]
  consider (start) "ledger tr = [] \<or> ledger tr = [Raised (LaunchPersistent True)] \<or>
           ledger tr = [Done (LaunchPersistent True)]"
    | (run) x ok ds df where "accounts (name l) (plan honeypots) x ok ds df"
      "ledger tr = Done (LaunchPersistent True) # x @
              [if ok then BatchComplete ds df (length (plan honeypots)) else BatchFailed]"
    by auto
  then show ?thesis
  proof cases
    case start
    have "attempts_of tr = []" "saved_of tr = []" "typed_of tr = []" "completes_of tr = []"
      using measures_ledger [of tr, symmetric] start by auto
    then show ?thesis by (simp add: c item_prompt_plan)
  next
    case run
    note A = accountsD [OF run(1)]
    have m: "attempts_of tr = attempts_of x" "saved_of tr = saved_of x"
      "typed_of tr = typed_of x"
      "completes_of tr = (if ok then [(ds, df, length (plan honeypots))] else [])"
      using measures_ledger [of tr, symmetric] by (simp_all add: run(2) A(10))
    show ?thesis
      using A(1,2,4,5) by (simp add: c m item_prompt_plan)
  qed
qed

text \<open>
  On \<open>mixed_page\<close> the three attempts are announced in the order of the plan, and the two
  files saved are those of the second persona, in the order of its prompts.
\<close>

theorem cmd_batch_order_witness:
  "attempts_of (snd (cmd_batch (demo_env mixed_page) demo_llm demo_honeypots 5 [])) =
     [(1, 1, py ''who''), (2, 1, py ''a''), (2, 2, py ''b'')] \<and>
   map file_key (saved_of (snd (cmd_batch (demo_env mixed_page) demo_llm demo_honeypots 5 []))) =
     [(Some (py ''bob''), py ''a''), (Some (py ''bob''), py ''b'')]"
proof -
  let ?run = "cmd_batch (demo_env mixed_page) demo_llm demo_honeypots 5 []"
  have m: "completes_of (snd ?run) \<noteq> []"
    by (simp add: run_defs demo_env_def demo_llm_def mixed_page_def demo_honeypots_def py_def
        read_response_def clean_text_def strip_def isspace_def re_sub_class_def)
  have p: "map item_attempt (plan demo_honeypots) = [(1, 1, py ''who''), (2, 1, py ''a''), (2, 2, py ''b'')]"
    by (simp add: plan_def plan_honeypots_def plan_prompts_def demo_honeypots_def item_attempt_def)
  have s: "map file_key (saved_of (snd ?run)) = [(Some (py ''bob''), py ''a''), (Some (py ''bob''), py ''b'')]"
    by (simp add: run_defs demo_env_def demo_llm_def mixed_page_def demo_honeypots_def py_def
        read_response_def clean_text_def strip_def isspace_def re_sub_class_def file_key_def)
  from cmd_batch_order [of "demo_env mixed_page" demo_llm demo_honeypots 5] m p s
  show ?thesis by simp
qed

section \<open>Properties of the fallback\<close>




text \<open>
  When the headless block of \<open>cmd_test\<close> reached the assignment of \<open>context\<close>, did not end with
  a response, and its \<open>finally\<close> closed the browser, the headful block is run.
\<close>

lemma cmd_test_escalates:
  assumes "state_path_exists E"
    and "\<not> sys_raises E tr StartPlaywright"
    and "attempt E True l prompt save hp (tr @ [Done StartPlaywright]) = (out1, True, tr1)"
    and "out1 \<noteq> Responded"
    and "perform_all (sys_raises E) [CloseContext, CloseBrowser] tr1 = (True, tr2)"
  shows "\<exists>out2 b tr3. attempt E False l prompt save hp tr2 = (out2, b, tr3) \<and>
           prefix tr3 (snd (cmd_test E l prompt save hp tr)) \<and>
           (fst (cmd_test E l prompt save hp tr) = Inr False \<longrightarrow> out2 = NoResponse)"
proof -
  obtain out2 b tr3 where a: "attempt E False l prompt save hp tr2 = (out2, b, tr3)"
    by (cases "attempt E False l prompt save hp tr2")
  have "prefix tr3 (snd (perform_all (sys_raises E) [CloseContext, CloseBrowser, StopPlaywright] tr3))"
    by (rule prefix_perform_all)
  with assms a show ?thesis
    by (auto simp: cmd_test_def perform_def split: prod.splits bool.splits attempt_outcome.splits if_splits)
qed




section \<open>Properties of the prompts file reader\<close>








end
